theory Spec2Isabelle
  imports Main "HOL-Library.Word" "HOL-Library.Char_ord"
begin

unbundle bit_operations_syntax

section \<open>Digital lock system: keypad scanner and PIN state machine\<close>

text \<open>
  The repository holds two copies of the lock firmware for the MSP430F5529:
  \<^item> \<^verbatim>\<open>src/main.c\<close>: keypad, SSD1306 OLED text display and two indicator LEDs
    (suffix \<open>_oled\<close> below);
  \<^item> \<^verbatim>\<open>src/unnamed/part_000\<close> (\<^verbatim>\<open>main copy 2.c\<close>): keypad and a four-digit
    7-segment display (suffix \<open>_7seg\<close> below).
  Both keep the same four globals, run the same \<^verbatim>\<open>while (1)\<close> loop in \<^verbatim>\<open>main\<close> and
  differ in the output routines they call and in the shift of \<^verbatim>\<open>getKeypadInput\<close>.
\<close>

subsection \<open>C characters, arrays and strings\<close>

text \<open>
  A C \<^verbatim>\<open>char\<close> is an Isabelle \<^typ>\<open>char\<close> (one byte); a \<^verbatim>\<open>char[n]\<close> array is a
  \<^typ>\<open>char list\<close> of length \<open>n\<close>. Every access is bounds-checked in the model: a read
  or write outside the array (undefined behaviour in C) is \<^term>\<open>None\<close>.
\<close>

abbreviation NUL :: char where
  "NUL \<equiv> CHR 0x00"

definition MAX_PASSWORD_LENGTH :: nat where
  "MAX_PASSWORD_LENGTH = 4"

text \<open>\<^verbatim>\<open>strlen\<close>: the number of bytes before the first NUL of the array.\<close>

fun strlen :: "char list \<Rightarrow> nat option" where
  "strlen [] = None"
| "strlen (c # cs) = (if c = NUL then Some 0 else map_option Suc (strlen cs))"

text \<open>The string a \<^verbatim>\<open>const char *\<close> argument denotes: the bytes before the first NUL.\<close>

definition c_string :: "char list \<Rightarrow> string option" where
  "c_string a = map_option (\<lambda>n. take n a) (strlen a)"

text \<open>\<^verbatim>\<open>strcpy(dst, src)\<close>: copies the string and its terminator over the start of \<open>dst\<close>.\<close>

definition strcpy :: "char list \<Rightarrow> char list \<Rightarrow> char list option" where
  "strcpy dst src =
     (case strlen src of
        None \<Rightarrow> None
      | Some n \<Rightarrow> if n < length dst then Some (take (Suc n) src @ drop (Suc n) dst) else None)"

text \<open>
  \<^verbatim>\<open>strcmp(a, b)\<close>: walks both arrays until the bytes differ or both are NUL; the
  result is the difference of the two bytes as \<^verbatim>\<open>unsigned char\<close> (only its being zero
  is used by the callers).
\<close>

fun strcmp :: "char list \<Rightarrow> char list \<Rightarrow> int option" where
  "strcmp (x # xs) (y # ys) =
     (if x \<noteq> y then Some (int (of_char x) - int (of_char y))
      else if x = NUL then Some 0
      else strcmp xs ys)"
| "strcmp _ _ = None"

text \<open>\<^verbatim>\<open>a[i] = v\<close> on an array.\<close>

definition store :: "char list \<Rightarrow> nat \<Rightarrow> char \<Rightarrow> char list option" where
  "store a i v = (if i < length a then Some (a[i := v]) else None)"

subsection \<open>The globals\<close>

text \<open>
  \<^verbatim>\<open>char storedPassword[5] = "0000"; char enteredPassword[5] = {0};\<close>
  \<^verbatim>\<open>unsigned char index = 0; int mode = 0;\<close>
  The only arithmetic on \<^verbatim>\<open>index\<close> is \<^verbatim>\<open>index++\<close> under the guard
  \<^verbatim>\<open>index < MAX_PASSWORD_LENGTH\<close>, so it never wraps and is a \<^typ>\<open>nat\<close> here.
  \<^verbatim>\<open>mode\<close> is only assigned and compared: 0 = unlocked, 1 = set PIN, 2 = locked,
  3 = enter PIN.
\<close>

record lock_state =
  storedPassword :: "char list"
  enteredPassword :: "char list"
  index :: nat
  mode :: int

definition initial_state :: lock_state where
  "initial_state =
     \<lparr> storedPassword = ''0000'' @ [NUL],
       enteredPassword = replicate (MAX_PASSWORD_LENGTH + 1) NUL,
       index = 0,
       mode = 0 \<rparr>"

abbreviation (input) Unlocked :: int where "Unlocked \<equiv> 0"
abbreviation (input) SettingPin :: int where "SettingPin \<equiv> 1"
abbreviation (input) Locked :: int where "Locked \<equiv> 2"
abbreviation (input) EnteringPin :: int where "EnteringPin \<equiv> 3"

text \<open>The spec's StoredPin and EntryBuffer, read off the globals.\<close>

definition StoredPin :: "lock_state \<Rightarrow> string" where
  "StoredPin s = take MAX_PASSWORD_LENGTH (storedPassword s)"

definition EntryBuffer :: "lock_state \<Rightarrow> string" where
  "EntryBuffer s = take (index s) (enteredPassword s)"

text \<open>
  The test \<^verbatim>\<open>key >= '0' && key <= '9'\<close>. The order on \<^typ>\<open>char\<close> compares the byte
  values as unsigned; a byte above 127 fails the test whether the compiler's \<^verbatim>\<open>char\<close>
  is signed (it is below \<^verbatim>\<open>'0'\<close>) or unsigned (it is above \<^verbatim>\<open>'9'\<close>).
\<close>

definition is_digit :: "char \<Rightarrow> bool" where
  "is_digit key \<longleftrightarrow> CHR ''0'' \<le> key \<and> key \<le> CHR ''9''"

subsection \<open>Output routines\<close>

text \<open>
  What reaches the hardware is a trace of port writes, busy-wait delays and calls into
  the SSD1306 library (whose code is not part of the repository).
\<close>

datatype hw_event =
    P1OUT_set "8 word"        \<comment> \<open>\<^verbatim>\<open>P1OUT |= m\<close>\<close>
  | P1OUT_clear "8 word"      \<comment> \<open>\<^verbatim>\<open>P1OUT &= ~m\<close>\<close>
  | P1OUT_toggle "8 word"     \<comment> \<open>\<^verbatim>\<open>P1OUT ^= m\<close>\<close>
  | P2OUT_set "8 word"
  | P2OUT_clear "8 word"
  | P4OUT_write nat           \<comment> \<open>\<^verbatim>\<open>P4OUT = i\<close>\<close>
  | P6OUT_write nat           \<comment> \<open>\<^verbatim>\<open>P6OUT = digitVal\<close>\<close>
  | delay_cycles nat
  | ssd1306_clearDisplay
  | ssd1306_printTextBlock nat nat string

definition BIT0 :: "8 word" where "BIT0 = 0x01"
definition BIT3 :: "8 word" where "BIT3 = 0x08"
definition BIT4 :: "8 word" where "BIT4 = 0x10"
definition BIT5 :: "8 word" where "BIT5 = 0x20"
definition BIT6 :: "8 word" where "BIT6 = 0x40"

subsubsection \<open>OLED variant (\<^verbatim>\<open>src/main.c\<close>)\<close>

text \<open>
  \<^verbatim>\<open>displayMessage(msg)\<close>: \<^verbatim>\<open>snprintf(buffer, 100, "%s ", msg)\<close> keeps at most 99
  bytes of the message and a space; then the display is cleared and the block printed.
\<close>

definition displayMessage :: "string \<Rightarrow> hw_event list" where
  "displayMessage msg =
     [ssd1306_clearDisplay, ssd1306_printTextBlock 0 2 (take 99 (msg @ '' '')), delay_cycles 100000]"

definition setLockedLEDOn :: "hw_event list" where
  "setLockedLEDOn = [P1OUT_set BIT4]"

definition setLockedLEDOff :: "hw_event list" where
  "setLockedLEDOff = [P1OUT_clear BIT4]"

text \<open>\<^verbatim>\<open>for (i = 0; i < 10; i++) { toggle; delay; toggle; delay; }\<close>\<close>

fun flashLockedLED_loop :: "nat \<Rightarrow> hw_event list" where
  "flashLockedLED_loop 0 = []"
| "flashLockedLED_loop (Suc n) =
     [P1OUT_toggle BIT4, delay_cycles 3000000, P1OUT_toggle BIT4, delay_cycles 3000000]
     @ flashLockedLED_loop n"

definition flashLockedLED :: "hw_event list" where
  "flashLockedLED = flashLockedLED_loop 10"

definition setUnlockedLEDOn :: "hw_event list" where
  "setUnlockedLEDOn = [P1OUT_set BIT5]"

definition setUnlockedLEDOff :: "hw_event list" where
  "setUnlockedLEDOff = [P1OUT_clear BIT5]"

text \<open>The calls \<^verbatim>\<open>main\<close> makes, each with the string its argument points to.\<close>

datatype call_oled =
    DisplayMessage string
  | SetLockedLEDOn
  | SetLockedLEDOff
  | FlashLockedLED
  | SetUnlockedLEDOn
  | SetUnlockedLEDOff

fun hw_oled :: "call_oled \<Rightarrow> hw_event list" where
  "hw_oled (DisplayMessage msg) = displayMessage msg"
| "hw_oled SetLockedLEDOn = setLockedLEDOn"
| "hw_oled SetLockedLEDOff = setLockedLEDOff"
| "hw_oled FlashLockedLED = flashLockedLED"
| "hw_oled SetUnlockedLEDOn = setUnlockedLEDOn"
| "hw_oled SetUnlockedLEDOff = setUnlockedLEDOff"

subsubsection \<open>7-segment variant (\<^verbatim>\<open>src/unnamed/part_000\<close>)\<close>

text \<open>
  \<^verbatim>\<open>updateDisplay(digits)\<close>: the first loop left-aligns the string in
  \<^verbatim>\<open>displayBuffer\<close> and pads with \<^verbatim>\<open>'0'\<close>; the second loop selects each position on
  P4OUT and writes the digit value (0 for a non-digit) to P6OUT; then P2.0 is pulsed.
\<close>

definition displayBuffer :: "string \<Rightarrow> nat \<Rightarrow> char" where
  "displayBuffer digits i = (if i < length digits then digits ! i else CHR ''0'')"

definition digitVal :: "char \<Rightarrow> nat" where
  "digitVal c = (if CHR ''0'' \<le> c \<and> c \<le> CHR ''9'' then of_char c - of_char CHR ''0'' else 0)"

definition updateDisplay :: "string \<Rightarrow> hw_event list" where
  "updateDisplay digits =
     concat (map (\<lambda>i. [P4OUT_write i, P6OUT_write (digitVal (displayBuffer digits i)),
                       delay_cycles 50000]) [0..<4])
     @ [P2OUT_set BIT0, delay_cycles 50000, P2OUT_clear BIT0]"

definition clearDisplay :: "hw_event list" where
  "clearDisplay = updateDisplay ''0000''"

definition displayError :: "hw_event list" where
  "displayError = updateDisplay ''8888'' @ [delay_cycles 200000]"

datatype call_7seg =
    UpdateDisplay string
  | ClearDisplay
  | DisplayError

fun hw_7seg :: "call_7seg \<Rightarrow> hw_event list" where
  "hw_7seg (UpdateDisplay digits) = updateDisplay digits"
| "hw_7seg ClearDisplay = clearDisplay"
| "hw_7seg DisplayError = displayError"

subsection \<open>The body of the main loop\<close>

text \<open>
  \<open>handle_oled s key\<close> is the body of \<^verbatim>\<open>while (1)\<close> in \<^verbatim>\<open>main\<close> of \<^verbatim>\<open>src/main.c\<close>
  after \<^verbatim>\<open>char key = getKeypadInput();\<close>: the guard \<^verbatim>\<open>if (key)\<close> and the
  \<^verbatim>\<open>if (mode == 0) ... else if (mode == 3)\<close> chain. It returns the new globals and
  the output calls made, in order; \<^term>\<open>None\<close> is an out-of-bounds access.
  \<^verbatim>\<open>memset(enteredPassword, 0, sizeof(enteredPassword))\<close> zeroes all five bytes.
\<close>

definition handle_oled :: "lock_state \<Rightarrow> char \<Rightarrow> (lock_state \<times> call_oled list) option" where
  "handle_oled s key =
     (if key = NUL then Some (s, [])
      else if mode s = 0 then
        (if key = CHR ''A'' then
           Some (s\<lparr>mode := 1, index := 0,
                   enteredPassword := replicate (MAX_PASSWORD_LENGTH + 1) NUL\<rparr>,
                 [DisplayMessage ''Enter New PIN:'', SetLockedLEDOff, SetUnlockedLEDOff])
         else Some (s, []))
      else if mode s = 1 then
        (if is_digit key then
           (if index s < MAX_PASSWORD_LENGTH then
              (case store (enteredPassword s) (index s) key of None \<Rightarrow> None | Some e1 \<Rightarrow>
              (case store e1 (Suc (index s)) NUL of None \<Rightarrow> None | Some e2 \<Rightarrow>
              (case c_string e2 of None \<Rightarrow> None | Some msg \<Rightarrow>
                 Some (s\<lparr>enteredPassword := e2, index := Suc (index s)\<rparr>,
                       [DisplayMessage msg]))))
            else Some (s, []))
         else if key = CHR ''B'' then
           (if index s = MAX_PASSWORD_LENGTH then
              (case strcpy (storedPassword s) (enteredPassword s) of None \<Rightarrow> None | Some sp \<Rightarrow>
                 Some (s\<lparr>storedPassword := sp, mode := 2\<rparr>,
                       [DisplayMessage ''Locked. Press C to enter PIN'',
                        SetLockedLEDOn, SetUnlockedLEDOff]))
            else Some (s, []))
         else Some (s, []))
      else if mode s = 2 then
        (if key = CHR ''C'' then
           Some (s\<lparr>mode := 3, index := 0,
                   enteredPassword := replicate (MAX_PASSWORD_LENGTH + 1) NUL\<rparr>,
                 [DisplayMessage ''Enter PIN, then press D'', SetLockedLEDOn, SetUnlockedLEDOff])
         else Some (s, []))
      else if mode s = 3 then
        (if is_digit key then
           (if index s < MAX_PASSWORD_LENGTH then
              (case store (enteredPassword s) (index s) key of None \<Rightarrow> None | Some e1 \<Rightarrow>
              (case store e1 (Suc (index s)) NUL of None \<Rightarrow> None | Some e2 \<Rightarrow>
              (case c_string e2 of None \<Rightarrow> None | Some msg \<Rightarrow>
                 Some (s\<lparr>enteredPassword := e2, index := Suc (index s)\<rparr>,
                       [DisplayMessage msg]))))
            else Some (s, []))
         else if key = CHR ''D'' then
           (if index s = MAX_PASSWORD_LENGTH then
              (case strcmp (storedPassword s) (enteredPassword s) of None \<Rightarrow> None | Some r \<Rightarrow>
                 if r = 0 then
                   Some (s\<lparr>mode := 0\<rparr>,
                         [DisplayMessage ''Unlocked. Press A to set PIN'',
                          SetLockedLEDOff, SetUnlockedLEDOn])
                 else
                   Some (s\<lparr>mode := 2\<rparr>,
                         [DisplayMessage ''Wrong PIN! Press C to try again'',
                          FlashLockedLED, SetLockedLEDOn, SetUnlockedLEDOff]))
            else Some (s, []))
         else Some (s, []))
      else Some (s, []))"

text \<open>
  \<open>handle_7seg s key\<close> is the same loop body in \<^verbatim>\<open>src/unnamed/part_000\<close>. Its output
  calls are \<^verbatim>\<open>updateDisplay\<close>, \<^verbatim>\<open>clearDisplay\<close> and \<^verbatim>\<open>displayError\<close>.
\<close>

definition handle_7seg :: "lock_state \<Rightarrow> char \<Rightarrow> (lock_state \<times> call_7seg list) option" where
  "handle_7seg s key =
     (if key = NUL then Some (s, [])
      else if mode s = 0 then
        (if key = CHR ''A'' then
           Some (s\<lparr>mode := 1, index := 0,
                   enteredPassword := replicate (MAX_PASSWORD_LENGTH + 1) NUL\<rparr>,
                 [ClearDisplay])
         else Some (s, []))
      else if mode s = 1 then
        (if is_digit key then
           (if index s < MAX_PASSWORD_LENGTH then
              (case store (enteredPassword s) (index s) key of None \<Rightarrow> None | Some e1 \<Rightarrow>
              (case store e1 (Suc (index s)) NUL of None \<Rightarrow> None | Some e2 \<Rightarrow>
              (case c_string e2 of None \<Rightarrow> None | Some digits \<Rightarrow>
                 Some (s\<lparr>enteredPassword := e2, index := Suc (index s)\<rparr>,
                       [UpdateDisplay digits]))))
            else Some (s, []))
         else if key = CHR ''B'' then
           (if index s = MAX_PASSWORD_LENGTH then
              (case strcpy (storedPassword s) (enteredPassword s) of None \<Rightarrow> None | Some sp \<Rightarrow>
              (case c_string sp of None \<Rightarrow> None | Some digits \<Rightarrow>
                 Some (s\<lparr>storedPassword := sp, mode := 2\<rparr>, [UpdateDisplay digits])))
            else Some (s, []))
         else Some (s, []))
      else if mode s = 2 then
        (if key = CHR ''C'' then
           Some (s\<lparr>mode := 3, index := 0,
                   enteredPassword := replicate (MAX_PASSWORD_LENGTH + 1) NUL\<rparr>,
                 [ClearDisplay])
         else Some (s, []))
      else if mode s = 3 then
        (if is_digit key then
           (if index s < MAX_PASSWORD_LENGTH then
              (case store (enteredPassword s) (index s) key of None \<Rightarrow> None | Some e1 \<Rightarrow>
              (case store e1 (Suc (index s)) NUL of None \<Rightarrow> None | Some e2 \<Rightarrow>
              (case c_string e2 of None \<Rightarrow> None | Some digits \<Rightarrow>
                 Some (s\<lparr>enteredPassword := e2, index := Suc (index s)\<rparr>,
                       [UpdateDisplay digits]))))
            else Some (s, []))
         else if key = CHR ''D'' then
           (if index s = MAX_PASSWORD_LENGTH then
              (case strcmp (storedPassword s) (enteredPassword s) of None \<Rightarrow> None | Some r \<Rightarrow>
              (case c_string (storedPassword s) of None \<Rightarrow> None | Some digits \<Rightarrow>
                 if r = 0 then Some (s\<lparr>mode := 0\<rparr>, [UpdateDisplay digits])
                 else Some (s\<lparr>mode := 2\<rparr>, [DisplayError, UpdateDisplay digits])))
            else Some (s, []))
         else Some (s, []))
      else Some (s, []))"

text \<open>
  What \<^verbatim>\<open>main\<close> does before the loop: \<^verbatim>\<open>mode = 0\<close> and the first render.
\<close>

definition startup_oled :: "lock_state \<times> call_oled list" where
  "startup_oled =
     (initial_state\<lparr>mode := 0\<rparr>,
      [DisplayMessage ''Unlocked. Press A to set PIN'', SetLockedLEDOff, SetUnlockedLEDOn])"

definition startup_7seg :: "(lock_state \<times> call_7seg list) option" where
  "startup_7seg =
     (case c_string (storedPassword initial_state) of None \<Rightarrow> None | Some digits \<Rightarrow>
        Some (initial_state\<lparr>mode := 0\<rparr>, [UpdateDisplay digits]))"

text \<open>
  Feeding a list of keys, one loop iteration each; the output calls accumulate.
\<close>

fun run_oled :: "lock_state \<times> call_oled list \<Rightarrow> char list \<Rightarrow> (lock_state \<times> call_oled list) option" where
  "run_oled (s, tr) [] = Some (s, tr)"
| "run_oled (s, tr) (k # ks) =
     (case handle_oled s k of None \<Rightarrow> None | Some (s', out) \<Rightarrow> run_oled (s', tr @ out) ks)"

fun run_7seg :: "lock_state \<times> call_7seg list \<Rightarrow> char list \<Rightarrow> (lock_state \<times> call_7seg list) option" where
  "run_7seg (s, tr) [] = Some (s, tr)"
| "run_7seg (s, tr) (k # ks) =
     (case handle_7seg s k of None \<Rightarrow> None | Some (s', out) \<Rightarrow> run_7seg (s', tr @ out) ks)"

subsection \<open>The keypad scanner\<close>

text \<open>
  The \<^verbatim>\<open>switch (bcd)\<close> of \<^verbatim>\<open>getKeypadInput\<close>, the same table in both files;
  \<^verbatim>\<open>bcd\<close> is an \<^verbatim>\<open>unsigned char\<close>.
\<close>

definition keymap :: "8 word \<Rightarrow> char" where
  "keymap bcd =
     (if bcd = 0 then CHR ''1''
      else if bcd = 1 then CHR ''2''
      else if bcd = 2 then CHR ''3''
      else if bcd = 3 then CHR ''A''
      else if bcd = 4 then CHR ''4''
      else if bcd = 5 then CHR ''5''
      else if bcd = 6 then CHR ''6''
      else if bcd = 7 then CHR ''B''
      else if bcd = 8 then CHR ''7''
      else if bcd = 9 then CHR ''8''
      else if bcd = 10 then CHR ''9''
      else if bcd = 11 then CHR ''C''
      else if bcd = 12 then CHR ''*''
      else if bcd = 13 then CHR ''0''
      else if bcd = 14 then CHR ''#''
      else if bcd = 15 then CHR ''D''
      else NUL)"

text \<open>
  \<^verbatim>\<open>unsigned char bcd = (P2IN & (BIT3 | BIT4 | BIT5 | BIT6)) >> 3;\<close> in
  \<^verbatim>\<open>src/main.c\<close>, \<^verbatim>\<open>>> 2\<close> in \<^verbatim>\<open>src/unnamed/part_000\<close>. P2IN is an 8-bit register.
\<close>

definition bcd_oled :: "8 word \<Rightarrow> 8 word" where
  "bcd_oled P2IN = drop_bit 3 (P2IN AND (BIT3 OR BIT4 OR BIT5 OR BIT6))"

definition bcd_7seg :: "8 word \<Rightarrow> 8 word" where
  "bcd_7seg P2IN = drop_bit 2 (P2IN AND (BIT3 OR BIT4 OR BIT5 OR BIT6))"

text \<open>
  \<^verbatim>\<open>getKeypadInput\<close> with its \<^verbatim>\<open>static char lastKey\<close> passed in and out: the result
  is the returned character (NUL for no key), the new \<^verbatim>\<open>lastKey\<close> and the debounce
  delay made.
\<close>

definition getKeypadInput_oled :: "char \<Rightarrow> 8 word \<Rightarrow> char \<times> char \<times> hw_event list" where
  "getKeypadInput_oled lastKey P2IN =
     (let key = keymap (bcd_oled P2IN)
      in if key = lastKey then (NUL, lastKey, [])
         else (key, key, [delay_cycles 200000]))"

definition getKeypadInput_7seg :: "char \<Rightarrow> 8 word \<Rightarrow> char \<times> char \<times> hw_event list" where
  "getKeypadInput_7seg lastKey P2IN =
     (let key = keymap (bcd_7seg P2IN)
      in if key = lastKey then (NUL, lastKey, [])
         else (key, key, [delay_cycles 200000]))"

text \<open>The results of successive polls over a list of sampled port values.\<close>

fun polls_oled :: "char \<Rightarrow> 8 word list \<Rightarrow> char list" where
  "polls_oled lastKey [] = []"
| "polls_oled lastKey (p # ps) =
     (case getKeypadInput_oled lastKey p of (r, lastKey', _) \<Rightarrow> r # polls_oled lastKey' ps)"

fun polls_7seg :: "char \<Rightarrow> 8 word list \<Rightarrow> char list" where
  "polls_7seg lastKey [] = []"
| "polls_7seg lastKey (p # ps) =
     (case getKeypadInput_7seg lastKey p of (r, lastKey', _) \<Rightarrow> r # polls_7seg lastKey' ps)"

subsection \<open>Well-formed globals\<close>

text \<open>
  The shape the globals have in every state the loop can reach: both arrays have five
  bytes, \<^verbatim>\<open>storedPassword\<close> holds four digits and a NUL, and \<^verbatim>\<open>enteredPassword\<close>
  holds \<^verbatim>\<open>index\<close> digits followed by a NUL.
\<close>

definition well_formed :: "lock_state \<Rightarrow> bool" where
  "well_formed s \<longleftrightarrow>
     length (storedPassword s) = MAX_PASSWORD_LENGTH + 1 \<and>
     list_all is_digit (take MAX_PASSWORD_LENGTH (storedPassword s)) \<and>
     storedPassword s ! MAX_PASSWORD_LENGTH = NUL \<and>
     length (enteredPassword s) = MAX_PASSWORD_LENGTH + 1 \<and>
     index s \<le> MAX_PASSWORD_LENGTH \<and>
     list_all is_digit (take (index s) (enteredPassword s)) \<and>
     enteredPassword s ! index s = NUL"

subsection \<open>Reachable states\<close>

text \<open>
  The globals the loop can hold: those at start-up and those after any number of
  iterations, each with an arbitrary key character (the scanner delivers fewer).
\<close>

inductive reachable_oled :: "lock_state \<Rightarrow> bool" where
  start_oled: "reachable_oled (fst startup_oled)"
| step_oled: "reachable_oled s \<Longrightarrow> handle_oled s key = Some (s', out) \<Longrightarrow> reachable_oled s'"

inductive reachable_7seg :: "lock_state \<Rightarrow> bool" where
  start_7seg: "startup_7seg = Some (s, out) \<Longrightarrow> reachable_7seg s"
| step_7seg: "reachable_7seg s \<Longrightarrow> handle_7seg s key = Some (s', out) \<Longrightarrow> reachable_7seg s'"

subsection \<open>The transition table of the spec\<close>

text \<open>
  This definition follows the spec, not the code: \<open>spec_table_row m key n\<close> holds when
  the transition table of the spec (section 4.2) has a row for mode \<open>m\<close> and key \<open>key\<close>
  whose condition holds for a buffer of length \<open>n\<close>. The two rows for \<open>D\<close> (buffer equal
  to StoredPin or not) together cover every buffer of length 4.
\<close>

definition spec_table_row :: "int \<Rightarrow> char \<Rightarrow> nat \<Rightarrow> bool" where
  "spec_table_row m key n \<longleftrightarrow>
     m = Unlocked \<and> key = CHR ''A''
   \<or> m = SettingPin \<and> key \<in> set ''0123456789'' \<and> n < 4
   \<or> m = SettingPin \<and> key = CHR ''B'' \<and> n = 4
   \<or> m = Locked \<and> key = CHR ''C''
   \<or> m = EnteringPin \<and> key \<in> set ''0123456789'' \<and> n < 4
   \<or> m = EnteringPin \<and> key = CHR ''D'' \<and> n = 4"

subsection \<open>Reading a hardware trace\<close>

text \<open>The values written to P6OUT, the BCD input of the 7-segment decoder, in order.\<close>

fun P6OUT_writes :: "hw_event list \<Rightarrow> nat list" where
  "P6OUT_writes [] = []"
| "P6OUT_writes (P6OUT_write d # es) = d # P6OUT_writes es"
| "P6OUT_writes (_ # es) = P6OUT_writes es"

section \<open>Properties of the C string routines and of well-formed globals\<close>

lemma of_char_pos: "c \<noteq> NUL \<Longrightarrow> 0 < (of_char c :: nat)"
proof -
  assume c: "c \<noteq> NUL"
  have "(of_char c :: nat) = of_char NUL \<longleftrightarrow> c = NUL"
    by (rule of_char_eq_iff)
  moreover have "(of_char NUL :: nat) = 0" by simp
  ultimately have "(of_char c :: nat) \<noteq> 0" using c by metis
  then show ?thesis by simp
qed

lemma of_char_pos': "NUL \<noteq> c \<Longrightarrow> 0 < (of_char c :: nat)"
  using of_char_pos [of c] by auto

lemma is_digit_not_NUL: "is_digit c \<Longrightarrow> c \<noteq> NUL"
  by (auto simp: is_digit_def)

lemma is_digit_not_letter:
  "is_digit c \<Longrightarrow> c \<noteq> CHR ''A'' \<and> c \<noteq> CHR ''B'' \<and> c \<noteq> CHR ''C'' \<and> c \<noteq> CHR ''D''"
  by (auto simp: is_digit_def)

lemma digits_no_NUL: "list_all is_digit xs \<Longrightarrow> NUL \<notin> set xs"
  by (induction xs) (auto dest: is_digit_not_NUL)

lemma strlen_at:
  "n < length a \<Longrightarrow> a ! n = NUL \<Longrightarrow> NUL \<notin> set (take n a) \<Longrightarrow> strlen a = Some n"
proof (induction a arbitrary: n)
  case Nil
  then show ?case by simp
next
  case (Cons c cs)
  show ?case
  proof (cases n)
    case 0
    with Cons.prems show ?thesis by simp
  next
    case (Suc m)
    with Cons.prems have "strlen cs = Some m"
      by (intro Cons.IH) auto
    with Cons.prems Suc show ?thesis by auto
  qed
qed

lemma strlen_string: "NUL \<notin> set x \<Longrightarrow> strlen (x @ NUL # r) = Some (length x)"
  by (rule strlen_at) (simp_all add: nth_append)

lemma c_string_string: "NUL \<notin> set x \<Longrightarrow> c_string (x @ NUL # r) = Some x"
  by (simp add: c_string_def strlen_string)

lemma strcmp_strings:
  "NUL \<notin> set x \<Longrightarrow> NUL \<notin> set y \<Longrightarrow>
   \<exists>r. strcmp (x @ NUL # ra) (y @ NUL # rb) = Some r \<and> (r = 0 \<longleftrightarrow> x = y)"
proof (induction x arbitrary: y)
  case Nil
  then show ?case by (cases y) (auto dest: of_char_pos')
next
  case (Cons a x)
  show ?case
  proof (cases y)
    case Nil
    with Cons.prems show ?thesis by (auto dest: of_char_pos')
  next
    case (Cons b y')
    with Cons.prems Cons.IH [of y'] show ?thesis by (auto simp: of_char_eq_iff)
  qed
qed

lemma array_split: "i < length a \<Longrightarrow> a = take i a @ a ! i # drop (Suc i) a"
  by (simp add: id_take_nth_drop)

lemma wf_stored:
  assumes "well_formed s"
  shows "storedPassword s = StoredPin s @ [NUL]" "length (StoredPin s) = 4"
    "list_all is_digit (StoredPin s)" "NUL \<notin> set (StoredPin s)"
proof -
  from assms have len: "length (storedPassword s) = 5" and nul: "storedPassword s ! 4 = NUL"
    and dig: "list_all is_digit (take 4 (storedPassword s))"
    by (simp_all add: well_formed_def MAX_PASSWORD_LENGTH_def)
  from len have "storedPassword s = take 4 (storedPassword s) @ storedPassword s ! 4 # drop 5 (storedPassword s)"
    using array_split [of 4 "storedPassword s"] by simp
  with len nul show "storedPassword s = StoredPin s @ [NUL]"
    by (simp add: StoredPin_def MAX_PASSWORD_LENGTH_def)
  from len show "length (StoredPin s) = 4" by (simp add: StoredPin_def MAX_PASSWORD_LENGTH_def)
  from dig show d: "list_all is_digit (StoredPin s)" by (simp add: StoredPin_def MAX_PASSWORD_LENGTH_def)
  then show "NUL \<notin> set (StoredPin s)" by (rule digits_no_NUL)
qed

lemma wf_entered:
  assumes "well_formed s"
  shows "enteredPassword s = EntryBuffer s @ NUL # drop (Suc (index s)) (enteredPassword s)"
    "length (EntryBuffer s) = index s" "index s \<le> 4" "length (enteredPassword s) = 5"
    "list_all is_digit (EntryBuffer s)" "NUL \<notin> set (EntryBuffer s)"
proof -
  from assms have len: "length (enteredPassword s) = 5" and nul: "enteredPassword s ! index s = NUL"
    and dig: "list_all is_digit (take (index s) (enteredPassword s))" and le: "index s \<le> 4"
    by (simp_all add: well_formed_def MAX_PASSWORD_LENGTH_def)
  from len le show "enteredPassword s = EntryBuffer s @ NUL # drop (Suc (index s)) (enteredPassword s)"
    using array_split [of "index s" "enteredPassword s"] nul by (simp add: EntryBuffer_def)
  from len le show "length (EntryBuffer s) = index s" by (simp add: EntryBuffer_def)
  from dig show d: "list_all is_digit (EntryBuffer s)" by (simp add: EntryBuffer_def)
  then show "NUL \<notin> set (EntryBuffer s)" by (rule digits_no_NUL)
  show "index s \<le> 4" by fact
  show "length (enteredPassword s) = 5" by fact
qed

lemma wf_entered_full:
  assumes "well_formed s" "index s = 4"
  shows "enteredPassword s = EntryBuffer s @ [NUL]"
  using wf_entered(1,4) [OF assms(1)] assms(2) by simp

lemma wf_c_string_entered: "well_formed s \<Longrightarrow> c_string (enteredPassword s) = Some (EntryBuffer s)"
  using wf_entered(1,6) [of s] c_string_string [of "EntryBuffer s"] by metis

lemma wf_c_string_stored: "well_formed s \<Longrightarrow> c_string (storedPassword s) = Some (StoredPin s)"
  using wf_stored(1,4) [of s] c_string_string [of "StoredPin s" "[]"] by simp

text \<open>
  The three statements of the digit branch, \<^verbatim>\<open>enteredPassword[index++] = key;\<close>
  the store of the terminator at the new \<^verbatim>\<open>index\<close>, and the render of \<^verbatim>\<open>enteredPassword\<close>.
\<close>

lemma digit_branch:
  assumes "well_formed s" "index s < 4" "is_digit k"
  defines "e2 \<equiv> (enteredPassword s)[index s := k, Suc (index s) := NUL]"
  shows "store (enteredPassword s) (index s) k = Some ((enteredPassword s)[index s := k])"
    "store ((enteredPassword s)[index s := k]) (Suc (index s)) NUL = Some e2"
    "take (Suc (index s)) e2 = EntryBuffer s @ [k]"
    "c_string e2 = Some (EntryBuffer s @ [k])"
    "well_formed (s\<lparr>enteredPassword := e2, index := Suc (index s)\<rparr>)"
proof -
  note w = wf_entered [OF assms(1)]
  from w(4) assms(2) show "store (enteredPassword s) (index s) k = Some ((enteredPassword s)[index s := k])"
    by (simp add: store_def)
  from w(4) assms(2) show "store ((enteredPassword s)[index s := k]) (Suc (index s)) NUL = Some e2"
    by (simp add: store_def e2_def)
  from w(4) assms(2) show t: "take (Suc (index s)) e2 = EntryBuffer s @ [k]"
    by (simp add: e2_def EntryBuffer_def take_Suc_conv_app_nth)
  have len: "length e2 = 5" using w(4) by (simp add: e2_def)
  have nul: "e2 ! Suc (index s) = NUL" using w(4) assms(2) by (simp add: e2_def)
  have nn: "NUL \<notin> set (take (Suc (index s)) e2)"
    using t w(6) is_digit_not_NUL [OF assms(3)] by auto
  have "strlen e2 = Some (Suc (index s))"
    using len nul nn assms(2) by (intro strlen_at) simp_all
  with t show "c_string e2 = Some (EntryBuffer s @ [k])" by (simp add: c_string_def)
  from assms(1) assms(2) assms(3) len nul t w(5)
  show "well_formed (s\<lparr>enteredPassword := e2, index := Suc (index s)\<rparr>)"
    by (simp add: well_formed_def MAX_PASSWORD_LENGTH_def)
qed

lemma strcpy_full:
  assumes "well_formed s" "index s = 4"
  shows "strcpy (storedPassword s) (enteredPassword s) = Some (enteredPassword s)"
proof -
  have e: "enteredPassword s = EntryBuffer s @ [NUL]" by (rule wf_entered_full [OF assms])
  have n: "NUL \<notin> set (EntryBuffer s)" by (rule wf_entered(6) [OF assms(1)])
  have l: "length (EntryBuffer s) = 4" using wf_entered(2) [OF assms(1)] assms(2) by simp
  have "strlen (enteredPassword s) = Some 4"
    using strlen_string [OF n, of "[]"] e l by simp
  moreover have "length (storedPassword s) = 5"
    using wf_stored(1,2) [OF assms(1)] by simp
  moreover have "length (enteredPassword s) = 5" by (rule wf_entered(4) [OF assms(1)])
  ultimately show ?thesis by (simp add: strcpy_def)
qed

lemma strcmp_full:
  assumes "well_formed s" "index s = 4"
  shows "\<exists>r. strcmp (storedPassword s) (enteredPassword s) = Some r \<and>
             (r = 0 \<longleftrightarrow> EntryBuffer s = StoredPin s)"
proof -
  have e: "enteredPassword s = EntryBuffer s @ [NUL]" by (rule wf_entered_full [OF assms])
  have p: "storedPassword s = StoredPin s @ [NUL]" by (rule wf_stored(1) [OF assms(1)])
  from strcmp_strings [OF wf_stored(4) [OF assms(1)] wf_entered(6) [OF assms(1)], of "[]" "[]"]
  show ?thesis unfolding e [symmetric] p [symmetric] by (auto simp: eq_commute)
qed

lemma wf_after_B:
  assumes "well_formed s" "index s = 4"
  shows "well_formed (s\<lparr>storedPassword := enteredPassword s, mode := m\<rparr>)"
    "StoredPin (s\<lparr>storedPassword := enteredPassword s, mode := m\<rparr>) = EntryBuffer s"
  using assms by (simp_all add: well_formed_def StoredPin_def EntryBuffer_def MAX_PASSWORD_LENGTH_def)

lemma wf_start_entry:
  "well_formed s \<Longrightarrow>
   well_formed (s\<lparr>mode := m, index := 0, enteredPassword := replicate (MAX_PASSWORD_LENGTH + 1) NUL\<rparr>)"
  by (simp add: well_formed_def MAX_PASSWORD_LENGTH_def)

lemma wf_mode: "well_formed s \<Longrightarrow> well_formed (s\<lparr>mode := m\<rparr>)"
  by (simp add: well_formed_def)

section \<open>The loop body on well-formed globals\<close>

subsection \<open>OLED variant\<close>

lemma handle_oled_digit:
  assumes "well_formed s" "mode s = 1 \<or> mode s = 3" "is_digit k" "index s < 4"
  shows "handle_oled s k =
    Some (s\<lparr>enteredPassword := (enteredPassword s)[index s := k, Suc (index s) := NUL],
            index := Suc (index s)\<rparr>,
          [DisplayMessage (EntryBuffer s @ [k])])"
  using assms(2,4) is_digit_not_NUL [OF assms(3)] assms(3)
    digit_branch(1,2,4) [OF assms(1) assms(4) assms(3)]
  by (auto simp: handle_oled_def MAX_PASSWORD_LENGTH_def)

lemma handle_oled_digit_full:
  assumes "mode s = 1 \<or> mode s = 3" "is_digit k" "4 \<le> index s"
  shows "handle_oled s k = Some (s, [])"
  using assms by (auto simp: handle_oled_def MAX_PASSWORD_LENGTH_def)

lemma handle_oled_B:
  assumes "well_formed s" "mode s = 1" "index s = 4"
  shows "handle_oled s CHR ''B'' =
    Some (s\<lparr>storedPassword := enteredPassword s, mode := 2\<rparr>,
          [DisplayMessage ''Locked. Press C to enter PIN'', SetLockedLEDOn, SetUnlockedLEDOff])"
  using assms(2,3) strcpy_full [OF assms(1,3)]
  by (simp add: handle_oled_def MAX_PASSWORD_LENGTH_def is_digit_def)

lemma handle_oled_D:
  assumes "well_formed s" "mode s = 3" "index s = 4"
  shows "handle_oled s CHR ''D'' =
    Some (if EntryBuffer s = StoredPin s
          then (s\<lparr>mode := 0\<rparr>,
                [DisplayMessage ''Unlocked. Press A to set PIN'', SetLockedLEDOff, SetUnlockedLEDOn])
          else (s\<lparr>mode := 2\<rparr>,
                [DisplayMessage ''Wrong PIN! Press C to try again'', FlashLockedLED,
                 SetLockedLEDOn, SetUnlockedLEDOff]))"
proof -
  from strcmp_full [OF assms(1,3)] obtain r where
    r: "strcmp (storedPassword s) (enteredPassword s) = Some r" "r = 0 \<longleftrightarrow> EntryBuffer s = StoredPin s"
    by blast
  with assms(2,3) show ?thesis
    by (simp add: handle_oled_def MAX_PASSWORD_LENGTH_def is_digit_def)
qed

lemma handle_oled_cases:
  assumes "well_formed s"
  shows "handle_oled s k =
     Some (if k \<noteq> NUL \<and> mode s = 0 \<and> k = CHR ''A'' then
             (s\<lparr>mode := 1, index := 0, enteredPassword := replicate (MAX_PASSWORD_LENGTH + 1) NUL\<rparr>,
              [DisplayMessage ''Enter New PIN:'', SetLockedLEDOff, SetUnlockedLEDOff])
           else if mode s = 2 \<and> k = CHR ''C'' then
             (s\<lparr>mode := 3, index := 0, enteredPassword := replicate (MAX_PASSWORD_LENGTH + 1) NUL\<rparr>,
              [DisplayMessage ''Enter PIN, then press D'', SetLockedLEDOn, SetUnlockedLEDOff])
           else if (mode s = 1 \<or> mode s = 3) \<and> is_digit k \<and> index s < 4 then
             (s\<lparr>enteredPassword := (enteredPassword s)[index s := k, Suc (index s) := NUL],
                index := Suc (index s)\<rparr>,
              [DisplayMessage (EntryBuffer s @ [k])])
           else if mode s = 1 \<and> k = CHR ''B'' \<and> index s = 4 then
             (s\<lparr>storedPassword := enteredPassword s, mode := 2\<rparr>,
              [DisplayMessage ''Locked. Press C to enter PIN'', SetLockedLEDOn, SetUnlockedLEDOff])
           else if mode s = 3 \<and> k = CHR ''D'' \<and> index s = 4 then
             (if EntryBuffer s = StoredPin s
              then (s\<lparr>mode := 0\<rparr>,
                [DisplayMessage ''Unlocked. Press A to set PIN'', SetLockedLEDOff, SetUnlockedLEDOn])
              else (s\<lparr>mode := 2\<rparr>,
                [DisplayMessage ''Wrong PIN! Press C to try again'', FlashLockedLED,
                 SetLockedLEDOn, SetUnlockedLEDOff]))
           else (s, []))"
proof -
  consider (dig) "(mode s = 1 \<or> mode s = 3)" "is_digit k" "index s < 4"
    | (b) "mode s = 1" "k = CHR ''B''" "index s = 4"
    | (d) "mode s = 3" "k = CHR ''D''" "index s = 4"
    | (other) "\<not> ((mode s = 1 \<or> mode s = 3) \<and> is_digit k \<and> index s < 4)"
        "\<not> (mode s = 1 \<and> k = CHR ''B'' \<and> index s = 4)"
        "\<not> (mode s = 3 \<and> k = CHR ''D'' \<and> index s = 4)"
    by blast
  then show ?thesis
  proof cases
    case dig
    then show ?thesis
      using handle_oled_digit [OF assms dig] is_digit_not_letter [OF dig(2)] is_digit_not_NUL [OF dig(2)]
      by auto
  next
    case b
    then show ?thesis using handle_oled_B [OF assms b(1,3)] by (simp add: is_digit_def)
  next
    case d
    then show ?thesis using handle_oled_D [OF assms d(1,3)] by (simp add: is_digit_def)
  next
    case other
    then show ?thesis
      by (auto simp: handle_oled_def MAX_PASSWORD_LENGTH_def)
  qed
qed

subsection \<open>7-segment variant\<close>

lemma handle_7seg_digit:
  assumes "well_formed s" "mode s = 1 \<or> mode s = 3" "is_digit k" "index s < 4"
  shows "handle_7seg s k =
    Some (s\<lparr>enteredPassword := (enteredPassword s)[index s := k, Suc (index s) := NUL],
            index := Suc (index s)\<rparr>,
          [UpdateDisplay (EntryBuffer s @ [k])])"
  using assms(2,4) is_digit_not_NUL [OF assms(3)] assms(3)
    digit_branch(1,2,4) [OF assms(1) assms(4) assms(3)]
  by (auto simp: handle_7seg_def MAX_PASSWORD_LENGTH_def)

lemma handle_7seg_digit_full:
  assumes "mode s = 1 \<or> mode s = 3" "is_digit k" "4 \<le> index s"
  shows "handle_7seg s k = Some (s, [])"
  using assms by (auto simp: handle_7seg_def MAX_PASSWORD_LENGTH_def)

lemma handle_7seg_B:
  assumes "well_formed s" "mode s = 1" "index s = 4"
  shows "handle_7seg s CHR ''B'' =
    Some (s\<lparr>storedPassword := enteredPassword s, mode := 2\<rparr>, [UpdateDisplay (EntryBuffer s)])"
  using assms(2,3) strcpy_full [OF assms(1,3)] wf_c_string_entered [OF assms(1)]
  by (simp add: handle_7seg_def MAX_PASSWORD_LENGTH_def is_digit_def)

lemma handle_7seg_D:
  assumes "well_formed s" "mode s = 3" "index s = 4"
  shows "handle_7seg s CHR ''D'' =
    Some (if EntryBuffer s = StoredPin s
          then (s\<lparr>mode := 0\<rparr>, [UpdateDisplay (StoredPin s)])
          else (s\<lparr>mode := 2\<rparr>, [DisplayError, UpdateDisplay (StoredPin s)]))"
proof -
  from strcmp_full [OF assms(1,3)] obtain r where
    r: "strcmp (storedPassword s) (enteredPassword s) = Some r" "r = 0 \<longleftrightarrow> EntryBuffer s = StoredPin s"
    by blast
  with assms(2,3) wf_c_string_stored [OF assms(1)] show ?thesis
    by (simp add: handle_7seg_def MAX_PASSWORD_LENGTH_def is_digit_def)
qed

lemma handle_7seg_cases:
  assumes "well_formed s"
  shows "handle_7seg s k =
     Some (if k \<noteq> NUL \<and> mode s = 0 \<and> k = CHR ''A'' then
             (s\<lparr>mode := 1, index := 0, enteredPassword := replicate (MAX_PASSWORD_LENGTH + 1) NUL\<rparr>,
              [ClearDisplay])
           else if mode s = 2 \<and> k = CHR ''C'' then
             (s\<lparr>mode := 3, index := 0, enteredPassword := replicate (MAX_PASSWORD_LENGTH + 1) NUL\<rparr>,
              [ClearDisplay])
           else if (mode s = 1 \<or> mode s = 3) \<and> is_digit k \<and> index s < 4 then
             (s\<lparr>enteredPassword := (enteredPassword s)[index s := k, Suc (index s) := NUL],
                index := Suc (index s)\<rparr>,
              [UpdateDisplay (EntryBuffer s @ [k])])
           else if mode s = 1 \<and> k = CHR ''B'' \<and> index s = 4 then
             (s\<lparr>storedPassword := enteredPassword s, mode := 2\<rparr>, [UpdateDisplay (EntryBuffer s)])
           else if mode s = 3 \<and> k = CHR ''D'' \<and> index s = 4 then
             (if EntryBuffer s = StoredPin s
              then (s\<lparr>mode := 0\<rparr>, [UpdateDisplay (StoredPin s)])
              else (s\<lparr>mode := 2\<rparr>, [DisplayError, UpdateDisplay (StoredPin s)]))
           else (s, []))"
proof -
  consider (dig) "(mode s = 1 \<or> mode s = 3)" "is_digit k" "index s < 4"
    | (b) "mode s = 1" "k = CHR ''B''" "index s = 4"
    | (d) "mode s = 3" "k = CHR ''D''" "index s = 4"
    | (other) "\<not> ((mode s = 1 \<or> mode s = 3) \<and> is_digit k \<and> index s < 4)"
        "\<not> (mode s = 1 \<and> k = CHR ''B'' \<and> index s = 4)"
        "\<not> (mode s = 3 \<and> k = CHR ''D'' \<and> index s = 4)"
    by blast
  then show ?thesis
  proof cases
    case dig
    then show ?thesis
      using handle_7seg_digit [OF assms dig] is_digit_not_letter [OF dig(2)] is_digit_not_NUL [OF dig(2)]
      by auto
  next
    case b
    then show ?thesis using handle_7seg_B [OF assms b(1,3)] by (simp add: is_digit_def)
  next
    case d
    then show ?thesis using handle_7seg_D [OF assms d(1,3)] by (simp add: is_digit_def)
  next
    case other
    then show ?thesis
      by (auto simp: handle_7seg_def MAX_PASSWORD_LENGTH_def)
  qed
qed

subsection \<open>Both variants\<close>

text \<open>Both copies compute the same next state.\<close>

lemma handle_same_state:
  "well_formed s \<Longrightarrow> map_option fst (handle_7seg s k) = map_option fst (handle_oled s k)"
  by (auto simp: handle_7seg_cases handle_oled_cases)

lemma handle_oled_total: "well_formed s \<Longrightarrow> \<exists>s' out. handle_oled s k = Some (s', out)"
  by (simp add: handle_oled_cases)

lemma handle_7seg_total: "well_formed s \<Longrightarrow> \<exists>s' out. handle_7seg s k = Some (s', out)"
  by (simp add: handle_7seg_cases)

lemma handle_oled_wf:
  assumes "well_formed s" "handle_oled s k = Some (s', out)"
  shows "well_formed s'"
proof -
  have d: "index s < 4 \<Longrightarrow> is_digit k \<Longrightarrow>
    well_formed (s\<lparr>enteredPassword := (enteredPassword s)[index s := k, Suc (index s) := NUL],
                   index := Suc (index s)\<rparr>)"
    using digit_branch(5) [OF assms(1)] by simp
  from assms(2) show ?thesis
    unfolding handle_oled_cases [OF assms(1)]
    using assms(1) d wf_after_B(1) [OF assms(1)] wf_start_entry [OF assms(1)] wf_mode [OF assms(1)]
    by (auto split: if_splits)
qed

lemma handle_7seg_wf:
  assumes "well_formed s" "handle_7seg s k = Some (s', out)"
  shows "well_formed s'"
proof -
  from handle_oled_total [OF assms(1), of k] obtain t o2 where t: "handle_oled s k = Some (t, o2)"
    by blast
  with handle_same_state [OF assms(1), of k] assms(2) have "t = s'" by simp
  with t handle_oled_wf [OF assms(1)] show ?thesis by blast
qed

lemma initial_wf: "well_formed initial_state"
  by (simp add: well_formed_def initial_state_def MAX_PASSWORD_LENGTH_def is_digit_def)

section \<open>The decoding of the sampled port value\<close>

lemma mask_val: "BIT3 OR BIT4 OR BIT5 OR BIT6 = (push_bit 3 (mask 4) :: 8 word)"
  by (simp add: BIT3_def BIT4_def BIT5_def BIT6_def mask_eq_exp_minus_1)

lemma bcd_oled_eq: "bcd_oled p = take_bit 4 (drop_bit 3 p)"
  unfolding bcd_oled_def mask_val
  by (rule bit_word_eqI) (auto simp: bit_simps)

lemma masked_eq: "p AND push_bit 3 (mask 4) = push_bit 3 (take_bit 4 (drop_bit 3 (p :: 8 word)))"
  by (rule bit_word_eqI) (auto simp: bit_simps)

lemma drop_push: "j + k + 4 \<le> 8 \<Longrightarrow>
  drop_bit j (push_bit (j + k) (take_bit 4 (y :: 8 word))) = push_bit k (take_bit 4 y)"
  by (rule bit_word_eqI) (auto simp: bit_simps)

lemma bcd_7seg_eq: "bcd_7seg p = 2 * bcd_oled p"
proof -
  have "bcd_7seg p = drop_bit 2 (push_bit (2 + 1) (take_bit 4 (drop_bit 3 p)))"
    unfolding bcd_7seg_def mask_val masked_eq by simp
  also have "\<dots> = push_bit 1 (take_bit 4 (drop_bit 3 p))"
    by (rule drop_push) simp
  finally show ?thesis by (simp add: bcd_oled_eq)
qed

lemma bcd_oled_less: "unat (bcd_oled p) < 16"
proof -
  have "unat (bcd_oled p) = take_bit 4 (unat (drop_bit 3 p))"
    by (simp add: bcd_oled_eq unsigned_take_bit_eq)
  also have "\<dots> < 2 ^ 4" by (rule take_bit_nat_less_exp)
  finally show ?thesis by simp
qed

lemma nat_less_16_cases:
  "n < (16::nat) \<Longrightarrow> n \<in> {0, 1, 2, 3, 4, 5, 6, 7, 8, 9, 10, 11, 12, 13, 14, 15}"
  by (simp only: insert_iff empty_iff) presburger

lemma word8_less_16_cases:
  assumes "unat (x :: 8 word) < 16"
  shows "x \<in> {0, 1, 2, 3, 4, 5, 6, 7, 8, 9, 10, 11, 12, 13, 14, 15}"
proof -
  have "of_nat (unat x) \<in> (of_nat ` {0, 1, 2, 3, 4, 5, 6, 7, 8, 9, 10, 11, 12, 13, 14, 15} :: 8 word set)"
    using nat_less_16_cases [OF assms] by (rule imageI)
  then show ?thesis by simp
qed

lemma bcd_oled_cases: "bcd_oled p \<in> {0, 1, 2, 3, 4, 5, 6, 7, 8, 9, 10, 11, 12, 13, 14, 15}"
  by (rule word8_less_16_cases [OF bcd_oled_less])

lemma keymap_values:
  "keymap 0 = CHR ''1''" "keymap 1 = CHR ''2''" "keymap 2 = CHR ''3''" "keymap 3 = CHR ''A''"
  "keymap 4 = CHR ''4''" "keymap 5 = CHR ''5''" "keymap 6 = CHR ''6''" "keymap 7 = CHR ''B''"
  "keymap 8 = CHR ''7''" "keymap 9 = CHR ''8''" "keymap 10 = CHR ''9''" "keymap 11 = CHR ''C''"
  "keymap 12 = CHR ''*''" "keymap 13 = CHR ''0''" "keymap 14 = CHR ''#''" "keymap 15 = CHR ''D''"
  by (simp_all add: keymap_def)

lemma keymap_even_values:
  "keymap 16 = NUL" "keymap 18 = NUL" "keymap 20 = NUL" "keymap 22 = NUL"
  "keymap 24 = NUL" "keymap 26 = NUL" "keymap 28 = NUL" "keymap 30 = NUL"
  by (simp_all add: keymap_def)

lemma keymap_oled_mapped: "keymap (bcd_oled p) \<in> set ''123A456B789C*0#D''"
  using bcd_oled_cases [of p] by (auto simp: keymap_values)

lemma keymap_oled_not_NUL: "keymap (bcd_oled p) \<noteq> NUL"
  using keymap_oled_mapped [of p] by auto

lemma bcd_7seg_cases: "bcd_7seg p \<in> {0, 2, 4, 6, 8, 10, 12, 14, 16, 18, 20, 22, 24, 26, 28, 30}"
  using bcd_oled_cases [of p] unfolding bcd_7seg_eq by auto

lemma keymap_7seg_values: "keymap (bcd_7seg p) \<in> insert NUL (set ''134679*#'')"
  using bcd_7seg_cases [of p] by (auto simp: keymap_values keymap_even_values)

lemma unat_bcd_7seg: "even (unat (bcd_7seg p)) \<and> unat (bcd_7seg p) \<le> 30"
  using bcd_7seg_cases [of p] by auto

section \<open>Digit characters\<close>

lemma is_digit_of_char: "is_digit k \<longleftrightarrow> 48 \<le> (of_char k :: nat) \<and> (of_char k :: nat) \<le> 57"
  by (simp add: is_digit_def less_eq_char_def)

lemma nat_digit_range:
  "48 \<le> n \<Longrightarrow> n \<le> 57 \<Longrightarrow> n \<in> {48, 49, 50, 51, 52, 53, 54, 55, 56, 57 :: nat}"
  by (simp only: insert_iff empty_iff) presburger

lemma char_of_digits:
  "char_of (48::nat) = CHR ''0''" "char_of (49::nat) = CHR ''1''" "char_of (50::nat) = CHR ''2''"
  "char_of (51::nat) = CHR ''3''" "char_of (52::nat) = CHR ''4''" "char_of (53::nat) = CHR ''5''"
  "char_of (54::nat) = CHR ''6''" "char_of (55::nat) = CHR ''7''" "char_of (56::nat) = CHR ''8''"
  "char_of (57::nat) = CHR ''9''"
  by (simp_all add: char_of_eq_iff)

lemma is_digit_iff: "is_digit k \<longleftrightarrow> k \<in> set ''0123456789''"
proof
  assume "is_digit k"
  then have "(of_char k :: nat) \<in> {48, 49, 50, 51, 52, 53, 54, 55, 56, 57}"
    by (simp only: is_digit_of_char nat_digit_range)
  then have "char_of (of_char k :: nat) \<in> char_of ` {48, 49, 50, 51, 52, 53, 54, 55, 56, 57 :: nat}"
    by (rule imageI)
  then show "k \<in> set ''0123456789''"
    by (simp add: char_of_digits)
next
  assume "k \<in> set ''0123456789''"
  then show "is_digit k" by (auto simp: is_digit_def)
qed

section \<open>Runs of the loop\<close>

subsection \<open>Reachable states are well formed\<close>

lemma reachable_oled_wf: "reachable_oled s \<Longrightarrow> well_formed s"
proof (induction rule: reachable_oled.induct)
  case start_oled
  show ?case using wf_mode [OF initial_wf, of 0] by (simp add: startup_oled_def)
next
  case (step_oled s key s' out)
  then show ?case by (blast intro: handle_oled_wf)
qed

lemma startup_7seg_eq: "startup_7seg = Some (initial_state, [UpdateDisplay ''0000''])"
  using wf_c_string_stored [OF initial_wf]
  by (simp add: startup_7seg_def) (simp add: initial_state_def StoredPin_def MAX_PASSWORD_LENGTH_def)

lemma reachable_7seg_wf: "reachable_7seg s \<Longrightarrow> well_formed s"
proof (induction rule: reachable_7seg.induct)
  case (start_7seg s out)
  then show ?case using initial_wf by (simp add: startup_7seg_eq)
next
  case (step_7seg s key s' out)
  then show ?case by (blast intro: handle_7seg_wf)
qed

subsection \<open>Digit entry\<close>

lemma EntryBuffer_after_digit:
  assumes "well_formed s" "index s < 4" "is_digit k"
  shows "EntryBuffer (s\<lparr>enteredPassword := (enteredPassword s)[index s := k, Suc (index s) := NUL],
            index := Suc (index s)\<rparr>) = EntryBuffer s @ [k]"
  using digit_branch(3) [OF assms] by (simp add: EntryBuffer_def)

lemma handle_oled_digit_step:
  assumes "well_formed s" "mode s = 1 \<or> mode s = 3" "is_digit k"
  shows "\<exists>s' out. handle_oled s k = Some (s', out) \<and> well_formed s' \<and> mode s' = mode s \<and>
           storedPassword s' = storedPassword s \<and> EntryBuffer s' = take 4 (EntryBuffer s @ [k])"
proof (cases "index s < 4")
  case True
  then show ?thesis
    using handle_oled_digit [OF assms True] digit_branch(5) [OF assms(1) True assms(3)]
      EntryBuffer_after_digit [OF assms(1) True assms(3)] wf_entered(2) [OF assms(1)]
    by simp
next
  case False
  then have "index s = 4" using wf_entered(3) [OF assms(1)] by simp
  then show ?thesis
    using handle_oled_digit_full [OF assms(2,3)] assms(1) wf_entered(2) [OF assms(1)] by simp
qed

lemma handle_7seg_digit_step:
  assumes "well_formed s" "mode s = 1 \<or> mode s = 3" "is_digit k"
  shows "\<exists>s' out. handle_7seg s k = Some (s', out) \<and> well_formed s' \<and> mode s' = mode s \<and>
           storedPassword s' = storedPassword s \<and> EntryBuffer s' = take 4 (EntryBuffer s @ [k])"
proof (cases "index s < 4")
  case True
  then show ?thesis
    using handle_7seg_digit [OF assms True] digit_branch(5) [OF assms(1) True assms(3)]
      EntryBuffer_after_digit [OF assms(1) True assms(3)] wf_entered(2) [OF assms(1)]
    by simp
next
  case False
  then have "index s = 4" using wf_entered(3) [OF assms(1)] by simp
  then show ?thesis
    using handle_7seg_digit_full [OF assms(2,3)] assms(1) wf_entered(2) [OF assms(1)] by simp
qed

lemma take_take_append: "take n (take n (xs @ [k]) @ ks) = take n (xs @ k # ks)"
proof -
  have "take n (take n A @ B) = take n (A @ B)" for A B :: "'a list"
    by (induction A arbitrary: n) (auto simp: take_Cons split: nat.splits)
  from this [of "xs @ [k]" ks] show ?thesis by simp
qed

lemma take_min_length: "take (min (length ks) n) ks = take n ks"
  by (simp add: min_def)

lemma run_oled_digits:
  assumes "well_formed s" "mode s = 1 \<or> mode s = 3" "list_all is_digit ks"
  shows "\<exists>s' tr'. run_oled (s, tr) ks = Some (s', tr') \<and> well_formed s' \<and> mode s' = mode s \<and>
           storedPassword s' = storedPassword s \<and> EntryBuffer s' = take 4 (EntryBuffer s @ ks)"
  using assms
proof (induction ks arbitrary: s tr)
  case Nil
  then show ?case using wf_entered(2,3) [of s] by simp
next
  case (Cons k ks)
  from Cons.prems have k: "is_digit k" and ks: "list_all is_digit ks" by simp_all
  from handle_oled_digit_step [OF Cons.prems(1,2) k] obtain s1 out where
    s1: "handle_oled s k = Some (s1, out)" "well_formed s1" "mode s1 = mode s"
      "storedPassword s1 = storedPassword s" "EntryBuffer s1 = take 4 (EntryBuffer s @ [k])"
    by blast
  from Cons.prems(2) s1(3) have m1: "mode s1 = 1 \<or> mode s1 = 3" by simp
  from Cons.IH [OF s1(2) m1 ks, of "tr @ out"] obtain s' tr' where
    r: "run_oled (s1, tr @ out) ks = Some (s', tr')" "well_formed s'" "mode s' = mode s1"
      "storedPassword s' = storedPassword s1" "EntryBuffer s' = take 4 (EntryBuffer s1 @ ks)"
    by blast
  have "EntryBuffer s' = take 4 (EntryBuffer s @ k # ks)"
    unfolding r(5) s1(5) by (rule take_take_append)
  with r s1 show ?case by simp
qed

lemma run_7seg_digits:
  assumes "well_formed s" "mode s = 1 \<or> mode s = 3" "list_all is_digit ks"
  shows "\<exists>s' tr'. run_7seg (s, tr) ks = Some (s', tr') \<and> well_formed s' \<and> mode s' = mode s \<and>
           storedPassword s' = storedPassword s \<and> EntryBuffer s' = take 4 (EntryBuffer s @ ks)"
  using assms
proof (induction ks arbitrary: s tr)
  case Nil
  then show ?case using wf_entered(2,3) [of s] by simp
next
  case (Cons k ks)
  from Cons.prems have k: "is_digit k" and ks: "list_all is_digit ks" by simp_all
  from handle_7seg_digit_step [OF Cons.prems(1,2) k] obtain s1 out where
    s1: "handle_7seg s k = Some (s1, out)" "well_formed s1" "mode s1 = mode s"
      "storedPassword s1 = storedPassword s" "EntryBuffer s1 = take 4 (EntryBuffer s @ [k])"
    by blast
  from Cons.prems(2) s1(3) have m1: "mode s1 = 1 \<or> mode s1 = 3" by simp
  from Cons.IH [OF s1(2) m1 ks, of "tr @ out"] obtain s' tr' where
    r: "run_7seg (s1, tr @ out) ks = Some (s', tr')" "well_formed s'" "mode s' = mode s1"
      "storedPassword s' = storedPassword s1" "EntryBuffer s' = take 4 (EntryBuffer s1 @ ks)"
    by blast
  have "EntryBuffer s' = take 4 (EntryBuffer s @ k # ks)"
    unfolding r(5) s1(5) by (rule take_take_append)
  with r s1 show ?case by simp
qed

lemma run_oled_reachable:
  "reachable_oled s \<Longrightarrow> run_oled (s, tr) ks = Some (s', tr') \<Longrightarrow> reachable_oled s'"
proof (induction ks arbitrary: s tr)
  case Nil
  then show ?case by simp
next
  case (Cons k ks)
  then show ?case
    by (auto split: option.splits intro: step_oled)
qed

lemma run_7seg_reachable:
  "reachable_7seg s \<Longrightarrow> run_7seg (s, tr) ks = Some (s', tr') \<Longrightarrow> reachable_7seg s'"
proof (induction ks arbitrary: s tr)
  case Nil
  then show ?case by simp
next
  case (Cons k ks)
  then show ?case
    by (auto split: option.splits intro: step_7seg)
qed

text \<open>Unfolding these evaluates the loop body on concrete globals.\<close>

lemmas eval_defs = handle_oled_def handle_7seg_def MAX_PASSWORD_LENGTH_def is_digit_def store_def
  c_string_def strcpy_def startup_oled_def initial_state_def

lemma run_oled_example:
  "run_oled startup_oled ''A1234'' =
     Some (\<lparr>storedPassword = ''0000'' @ [NUL], enteredPassword = ''1234'' @ [NUL],
             index = 4, mode = SettingPin\<rparr>,
           [DisplayMessage ''Unlocked. Press A to set PIN'', SetLockedLEDOff, SetUnlockedLEDOn,
            DisplayMessage ''Enter New PIN:'', SetLockedLEDOff, SetUnlockedLEDOff,
            DisplayMessage ''1'', DisplayMessage ''12'', DisplayMessage ''123'',
            DisplayMessage ''1234''])"
  by (simp add: eval_defs eval_nat_numeral)

lemma run_7seg_example:
  "run_7seg (initial_state, [UpdateDisplay ''0000'']) ''A1234'' =
     Some (\<lparr>storedPassword = ''0000'' @ [NUL], enteredPassword = ''1234'' @ [NUL],
             index = 4, mode = SettingPin\<rparr>,
           [UpdateDisplay ''0000'', ClearDisplay, UpdateDisplay ''1'', UpdateDisplay ''12'',
            UpdateDisplay ''123'', UpdateDisplay ''1234''])"
  by (simp add: eval_defs eval_nat_numeral)

lemma reachable_oled_example:
  "reachable_oled \<lparr>storedPassword = ''0000'' @ [NUL], enteredPassword = ''1234'' @ [NUL],
             index = 4, mode = SettingPin\<rparr>"
  using run_oled_reachable [OF start_oled, of "snd startup_oled" "''A1234''"] run_oled_example
  by simp

lemma reachable_7seg_example:
  "reachable_7seg \<lparr>storedPassword = ''0000'' @ [NUL], enteredPassword = ''1234'' @ [NUL],
             index = 4, mode = SettingPin\<rparr>"
  using run_7seg_reachable [OF start_7seg [OF startup_7seg_eq] run_7seg_example] .

subsection \<open>Keys outside the transition table\<close>

lemma spec_row_iff:
  "spec_table_row m key n \<longleftrightarrow>
     m = 0 \<and> key = CHR ''A'' \<or> (m = 1 \<or> m = 3) \<and> is_digit key \<and> n < 4
     \<or> m = 1 \<and> key = CHR ''B'' \<and> n = 4 \<or> m = 2 \<and> key = CHR ''C''
     \<or> m = 3 \<and> key = CHR ''D'' \<and> n = 4"
  unfolding spec_table_row_def is_digit_iff by blast

lemma handle_oled_unmatched:
  assumes "\<not> spec_table_row (mode s) key (index s)"
  shows "handle_oled s key = Some (s, [])"
  using assms unfolding spec_row_iff
  by (auto simp: handle_oled_def MAX_PASSWORD_LENGTH_def)

lemma handle_7seg_unmatched:
  assumes "\<not> spec_table_row (mode s) key (index s)"
  shows "handle_7seg s key = Some (s, [])"
  using assms unfolding spec_row_iff
  by (auto simp: handle_7seg_def MAX_PASSWORD_LENGTH_def)

lemma star_hash_no_row:
  "key = CHR ''*'' \<or> key = CHR ''#'' \<Longrightarrow> \<not> spec_table_row m key n"
  unfolding spec_row_iff by (auto simp: is_digit_def)

lemma confirm_short_no_row:
  "key = CHR ''B'' \<or> key = CHR ''D'' \<Longrightarrow> n < 4 \<Longrightarrow> \<not> spec_table_row m key n"
  unfolding spec_row_iff by (auto simp: is_digit_def)

subsection \<open>Writes to the stored PIN\<close>

lemma handle_oled_stored_changes:
  assumes "well_formed s" "handle_oled s key = Some (s', out)" "storedPassword s' \<noteq> storedPassword s"
  shows "mode s = 1 \<and> key = CHR ''B'' \<and> index s = 4 \<and> s' = s\<lparr>storedPassword := enteredPassword s, mode := 2\<rparr>"
  using assms(2,3) unfolding handle_oled_cases [OF assms(1)]
  by (auto split: if_splits)

lemma handle_7seg_stored_changes:
  assumes "well_formed s" "handle_7seg s key = Some (s', out)" "storedPassword s' \<noteq> storedPassword s"
  shows "mode s = 1 \<and> key = CHR ''B'' \<and> index s = 4 \<and> s' = s\<lparr>storedPassword := enteredPassword s, mode := 2\<rparr>"
  using assms(2,3) unfolding handle_7seg_cases [OF assms(1)]
  by (auto split: if_splits)

lemma StoredPin_digits:
  assumes "well_formed s"
  shows "length (StoredPin s) = 4 \<and> set (StoredPin s) \<subseteq> set ''0123456789'' \<and>
         storedPassword s = StoredPin s @ [NUL]"
proof -
  from wf_stored(3) [OF assms] have "\<forall>c\<in>set (StoredPin s). is_digit c"
    by (simp add: list_all_iff)
  then have "set (StoredPin s) \<subseteq> set ''0123456789''"
    unfolding is_digit_iff by blast
  with wf_stored(1,2) [OF assms] show ?thesis by simp
qed

section \<open>Successive polls of the scanner\<close>

text \<open>Unfolding these evaluates a poll on a concrete port value.\<close>

lemmas scan_defs = getKeypadInput_oled_def getKeypadInput_7seg_def bcd_oled_def bcd_7seg_def
  keymap_def BIT3_def BIT4_def BIT5_def BIT6_def Let_def

lemma polls_oled_Cons:
  "polls_oled lk (p # ps) =
     (if keymap (bcd_oled p) = lk then NUL else keymap (bcd_oled p))
     # polls_oled (keymap (bcd_oled p)) ps"
  by (simp add: getKeypadInput_oled_def Let_def)

lemma polls_7seg_Cons:
  "polls_7seg lk (p # ps) =
     (if keymap (bcd_7seg p) = lk then NUL else keymap (bcd_7seg p))
     # polls_7seg (keymap (bcd_7seg p)) ps"
  by (simp add: getKeypadInput_7seg_def Let_def)

lemma length_polls_oled: "length (polls_oled lk ps) = length ps"
  by (induction ps arbitrary: lk) (simp_all add: polls_oled_Cons del: polls_oled.simps(2))

lemma length_polls_7seg: "length (polls_7seg lk ps) = length ps"
  by (induction ps arbitrary: lk) (simp_all add: polls_7seg_Cons del: polls_7seg.simps(2))

lemma polls_oled_adjacent:
  "Suc i < length ps \<Longrightarrow> polls_oled lk ps ! i \<noteq> NUL \<Longrightarrow>
   polls_oled lk ps ! Suc i \<noteq> polls_oled lk ps ! i"
proof (induction ps arbitrary: lk i)
  case Nil
  then show ?case by simp
next
  case (Cons p ps)
  show ?case
  proof (cases i)
    case 0
    with Cons.prems obtain q qs where ps: "ps = q # qs" by (cases ps) auto
    from Cons.prems 0 show ?thesis
      unfolding ps polls_oled_Cons by (auto split: if_splits)
  next
    case (Suc j)
    with Cons.prems Cons.IH [of j "keymap (bcd_oled p)"] show ?thesis
      unfolding polls_oled_Cons by simp
  qed
qed

lemma polls_7seg_adjacent:
  "Suc i < length ps \<Longrightarrow> polls_7seg lk ps ! i \<noteq> NUL \<Longrightarrow>
   polls_7seg lk ps ! Suc i \<noteq> polls_7seg lk ps ! i"
proof (induction ps arbitrary: lk i)
  case Nil
  then show ?case by simp
next
  case (Cons p ps)
  show ?case
  proof (cases i)
    case 0
    with Cons.prems obtain q qs where ps: "ps = q # qs" by (cases ps) auto
    from Cons.prems 0 show ?thesis
      unfolding ps polls_7seg_Cons by (auto split: if_splits)
  next
    case (Suc j)
    with Cons.prems Cons.IH [of j "keymap (bcd_7seg p)"] show ?thesis
      unfolding polls_7seg_Cons by simp
  qed
qed

lemma polls_oled_same: "keymap (bcd_oled p) = lk \<Longrightarrow> polls_oled lk (replicate n p) = replicate n NUL"
  by (induction n) (simp_all add: polls_oled_Cons del: polls_oled.simps(2))

lemma polls_7seg_same: "keymap (bcd_7seg p) = lk \<Longrightarrow> polls_7seg lk (replicate n p) = replicate n NUL"
  by (induction n) (simp_all add: polls_7seg_Cons del: polls_7seg.simps(2))

lemma polls_oled_held:
  "polls_oled lk (replicate (Suc n) p) = fst (getKeypadInput_oled lk p) # replicate n NUL"
  by (simp add: polls_oled_Cons polls_oled_same getKeypadInput_oled_def Let_def del: polls_oled.simps(2))

lemma polls_7seg_held:
  "polls_7seg lk (replicate (Suc n) p) = fst (getKeypadInput_7seg lk p) # replicate n NUL"
  by (simp add: polls_7seg_Cons polls_7seg_same getKeypadInput_7seg_def Let_def del: polls_7seg.simps(2))

lemma bcd_7seg_unmapped: "keymap (bcd_7seg p) = NUL \<longleftrightarrow> 15 < unat (bcd_7seg p)"
  using bcd_7seg_cases [of p] by (auto simp: keymap_values keymap_even_values)

lemma getKeypadInput_7seg_values:
  "fst (getKeypadInput_7seg lastKey p) \<in> insert NUL (set ''134679*#'')"
  using keymap_7seg_values [of p] by (simp add: getKeypadInput_7seg_def Let_def)

lemma polls_7seg_values: "set (polls_7seg lastKey ps) \<subseteq> insert NUL (set ''134679*#'')"
proof (induction ps arbitrary: lastKey)
  case Nil
  show ?case by simp
next
  case (Cons p ps)
  from Cons.IH [of "keymap (bcd_7seg p)"] keymap_7seg_values [of p]
  show ?case unfolding polls_7seg_Cons by auto
qed

section \<open>What the output routines write\<close>

lemma upt_4: "[0..<4] = [0, 1, 2, 3]"
  by (simp add: upt_rec)

lemma P6OUT_writes_updateDisplay:
  assumes "length digits = 4"
  shows "P6OUT_writes (updateDisplay digits) = map digitVal digits"
proof -
  from assms obtain a b c d where d: "digits = [a, b, c, d]"
    by (auto simp: length_Suc_conv eval_nat_numeral)
  show ?thesis
    unfolding d by (simp add: updateDisplay_def upt_4 displayBuffer_def)
qed

lemma StoredPin_mode [simp]: "StoredPin (s\<lparr>mode := m\<rparr>) = StoredPin s"
  by (simp add: StoredPin_def)

lemma handle_7seg_enters:
  assumes "well_formed s" "handle_7seg s key = Some (s', out)" "mode s' \<noteq> mode s"
    "mode s' = 2 \<or> mode s' = 0"
  shows "out \<noteq> [] \<and> last out = UpdateDisplay (StoredPin s')"
  using assms(2,3,4) wf_after_B(2) [OF assms(1), of 2]
  unfolding handle_7seg_cases [OF assms(1)]
  by (auto split: if_splits)

lemma handle_7seg_shows_pin:
  assumes "well_formed s" "handle_7seg s key = Some (s', out)"
    "mode s = 2 \<or> mode s = 0 \<longrightarrow> tr \<noteq> [] \<and> last tr = UpdateDisplay (StoredPin s)"
  shows "mode s' = 2 \<or> mode s' = 0 \<longrightarrow>
           tr @ out \<noteq> [] \<and> last (tr @ out) = UpdateDisplay (StoredPin s')"
proof (cases "mode s' = mode s")
  case False
  with handle_7seg_enters [OF assms(1,2)] show ?thesis by auto
next
  case True
  have "storedPassword s' = storedPassword s \<and> (mode s = 2 \<or> mode s = 0 \<longrightarrow> out = [])"
    using assms(2) True unfolding handle_7seg_cases [OF assms(1)]
    by (auto split: if_splits)
  with True assms(3) show ?thesis by (auto simp: StoredPin_def)
qed

lemma run_7seg_shows_pin:
  assumes "well_formed s" "run_7seg (s, tr) keys = Some (t, tr')"
    "mode s = 2 \<or> mode s = 0 \<longrightarrow> tr \<noteq> [] \<and> last tr = UpdateDisplay (StoredPin s)"
  shows "mode t = 2 \<or> mode t = 0 \<longrightarrow> tr' \<noteq> [] \<and> last tr' = UpdateDisplay (StoredPin t)"
  using assms
proof (induction keys arbitrary: s tr)
  case Nil
  then show ?case by simp
next
  case (Cons k keys)
  from Cons.prems(2) obtain s1 out where
    h: "handle_7seg s k = Some (s1, out)" and r: "run_7seg (s1, tr @ out) keys = Some (t, tr')"
    by (auto split: option.splits)
  from handle_7seg_wf [OF Cons.prems(1) h] have w1: "well_formed s1" .
  from handle_7seg_shows_pin [OF Cons.prems(1) h Cons.prems(3)]
  show ?case by (rule Cons.IH [OF w1 r])
qed

lemma run_7seg_example_locked:
  "run_7seg (initial_state, [UpdateDisplay ''0000'']) ''A1234B'' =
     Some (\<lparr>storedPassword = ''1234'' @ [NUL], enteredPassword = ''1234'' @ [NUL],
             index = 4, mode = Locked\<rparr>,
           [UpdateDisplay ''0000'', ClearDisplay, UpdateDisplay ''1'', UpdateDisplay ''12'',
            UpdateDisplay ''123'', UpdateDisplay ''1234'', UpdateDisplay ''1234''])"
  by (simp add: eval_defs eval_nat_numeral)

lemma flashLockedLED_loop_eq:
  "flashLockedLED_loop n =
     concat (replicate n [P1OUT_toggle BIT4, delay_cycles 3000000,
                          P1OUT_toggle BIT4, delay_cycles 3000000])"
  by (induction n) simp_all

lemma flashLockedLED_eq:
  "flashLockedLED =
     concat (replicate 10 [P1OUT_toggle BIT4, delay_cycles 3000000,
                           P1OUT_toggle BIT4, delay_cycles 3000000])"
  by (simp only: flashLockedLED_def flashLockedLED_loop_eq)

section \<open>The claims\<close>

text \<open>
  In the theorems below a state is \<^term>\<open>well_formed\<close>, the shape every reachable
  state has (\<open>reachable_oled_wf\<close>, \<open>reachable_7seg_wf\<close>); the spec's StoredPin and
  EntryBuffer are \<^term>\<open>StoredPin\<close> and \<^term>\<open>EntryBuffer\<close>; a result \<open>Some (s', out)\<close>
  of the loop body gives the new globals and the output calls made, in order.
\<close>

text \<open>
  Claim C1. In mode EnteringPin with an EntryBuffer of exactly four digits, key \<open>D\<close>
  moves to Unlocked when the buffer equals StoredPin. Otherwise it moves to Locked, and
  the calls made are exactly one failure indication followed by the locked indication:
  on the OLED variant the message \<open>Wrong PIN! ...\<close> with one \<^verbatim>\<open>flashLockedLED()\<close>,
  then the locked LED on and the unlocked LED off; on the 7-segment variant one
  \<^verbatim>\<open>displayError()\<close>, then the render that the Locked mode shows.
\<close>

theorem C1_confirm_entered_pin:
  assumes "well_formed s" and "mode s = EnteringPin" and "length (EntryBuffer s) = 4"
  shows "handle_oled s CHR ''D'' =
           Some (if EntryBuffer s = StoredPin s
                 then (s\<lparr>mode := Unlocked\<rparr>,
                       [DisplayMessage ''Unlocked. Press A to set PIN'',
                        SetLockedLEDOff, SetUnlockedLEDOn])
                 else (s\<lparr>mode := Locked\<rparr>,
                       [DisplayMessage ''Wrong PIN! Press C to try again'', FlashLockedLED,
                        SetLockedLEDOn, SetUnlockedLEDOff]))
       \<and> handle_7seg s CHR ''D'' =
           Some (if EntryBuffer s = StoredPin s
                 then (s\<lparr>mode := Unlocked\<rparr>, [UpdateDisplay (StoredPin s)])
                 else (s\<lparr>mode := Locked\<rparr>, [DisplayError, UpdateDisplay (StoredPin s)]))"
proof -
  from assms(1,3) have i: "index s = 4" by (simp add: wf_entered(2))
  show ?thesis
    using handle_oled_D [OF assms(1,2) i] handle_7seg_D [OF assms(1,2) i] by simp
qed

theorem C1_confirm_entered_pin_witness:
  "(let s = \<lparr>storedPassword = ''1234'' @ [NUL], enteredPassword = ''1234'' @ [NUL],
             index = 4, mode = EnteringPin\<rparr>
    in well_formed s \<and> mode s = EnteringPin \<and> length (EntryBuffer s) = 4 \<and>
       handle_oled s CHR ''D'' =
         Some (s\<lparr>mode := Unlocked\<rparr>,
               [DisplayMessage ''Unlocked. Press A to set PIN'', SetLockedLEDOff, SetUnlockedLEDOn]) \<and>
       handle_7seg s CHR ''D'' = Some (s\<lparr>mode := Unlocked\<rparr>, [UpdateDisplay ''1234'']))
   \<and> (let s = \<lparr>storedPassword = ''1234'' @ [NUL], enteredPassword = ''9999'' @ [NUL],
             index = 4, mode = EnteringPin\<rparr>
    in well_formed s \<and> mode s = EnteringPin \<and> length (EntryBuffer s) = 4 \<and>
       handle_oled s CHR ''D'' =
         Some (s\<lparr>mode := Locked\<rparr>,
               [DisplayMessage ''Wrong PIN! Press C to try again'', FlashLockedLED,
                SetLockedLEDOn, SetUnlockedLEDOff]) \<and>
       handle_7seg s CHR ''D'' = Some (s\<lparr>mode := Locked\<rparr>, [DisplayError, UpdateDisplay ''1234'']))"
  using C1_confirm_entered_pin
      [of "\<lparr>storedPassword = ''1234'' @ [NUL], enteredPassword = ''1234'' @ [NUL],
             index = 4, mode = EnteringPin\<rparr>"]
    C1_confirm_entered_pin
      [of "\<lparr>storedPassword = ''1234'' @ [NUL], enteredPassword = ''9999'' @ [NUL],
             index = 4, mode = EnteringPin\<rparr>"]
  by (simp add: well_formed_def MAX_PASSWORD_LENGTH_def is_digit_def EntryBuffer_def StoredPin_def)

text \<open>
  Claim C2. In mode SettingPin with an EntryBuffer of exactly four digits, key \<open>B\<close>
  overwrites \<^verbatim>\<open>storedPassword\<close> with the four digits of the buffer and the terminator,
  whatever it held before (the default \<open>0000\<close> in the witness), and moves to Locked.
\<close>

theorem C2_confirm_new_pin:
  assumes "well_formed s" and "mode s = SettingPin" and "length (EntryBuffer s) = 4"
  shows "handle_oled s CHR ''B'' =
           Some (s\<lparr>storedPassword := EntryBuffer s @ [NUL], mode := Locked\<rparr>,
                 [DisplayMessage ''Locked. Press C to enter PIN'', SetLockedLEDOn, SetUnlockedLEDOff])
       \<and> handle_7seg s CHR ''B'' =
           Some (s\<lparr>storedPassword := EntryBuffer s @ [NUL], mode := Locked\<rparr>,
                 [UpdateDisplay (EntryBuffer s)])
       \<and> StoredPin (s\<lparr>storedPassword := EntryBuffer s @ [NUL], mode := Locked\<rparr>) = EntryBuffer s"
proof -
  from assms(1,3) have i: "index s = 4" by (simp add: wf_entered(2))
  have e: "enteredPassword s = EntryBuffer s @ [NUL]" by (rule wf_entered_full [OF assms(1) i])
  have "StoredPin (s\<lparr>storedPassword := EntryBuffer s @ [NUL], mode := Locked\<rparr>) = EntryBuffer s"
    using assms(3) by (simp add: StoredPin_def MAX_PASSWORD_LENGTH_def)
  then show ?thesis
    using handle_oled_B [OF assms(1,2) i] handle_7seg_B [OF assms(1,2) i] e by simp
qed

theorem C2_confirm_new_pin_witness:
  "(let s = \<lparr>storedPassword = ''0000'' @ [NUL], enteredPassword = ''1234'' @ [NUL],
             index = 4, mode = SettingPin\<rparr>
    in well_formed s \<and> mode s = SettingPin \<and> length (EntryBuffer s) = 4 \<and>
       handle_oled s CHR ''B'' =
         Some (\<lparr>storedPassword = ''1234'' @ [NUL], enteredPassword = ''1234'' @ [NUL],
                index = 4, mode = Locked\<rparr>,
               [DisplayMessage ''Locked. Press C to enter PIN'', SetLockedLEDOn, SetUnlockedLEDOff]) \<and>
       handle_7seg s CHR ''B'' =
         Some (\<lparr>storedPassword = ''1234'' @ [NUL], enteredPassword = ''1234'' @ [NUL],
                index = 4, mode = Locked\<rparr>,
               [UpdateDisplay ''1234'']))"
  using C2_confirm_new_pin
      [of "\<lparr>storedPassword = ''0000'' @ [NUL], enteredPassword = ''1234'' @ [NUL],
             index = 4, mode = SettingPin\<rparr>"]
  by (simp add: well_formed_def MAX_PASSWORD_LENGTH_def is_digit_def EntryBuffer_def StoredPin_def)

text \<open>
  Claim C3. From a well-formed state in mode SettingPin or EnteringPin with an empty
  EntryBuffer, feeding any list \<open>ks\<close> of digit keys (one loop iteration each) ends with
  EntryBuffer equal to the first \<open>min (length ks) 4\<close> of them, in order, of length at
  most 4, with mode and StoredPin unchanged. A digit key that arrives when the buffer
  already holds four digits changes nothing and draws nothing.
\<close>

theorem C3_digit_entry:
  "(well_formed s \<and> (mode s = SettingPin \<or> mode s = EnteringPin) \<and> EntryBuffer s = []
      \<and> list_all is_digit ks \<longrightarrow>
      (\<exists>s' tr'. run_oled (s, tr) ks = Some (s', tr') \<and>
                EntryBuffer s' = take (min (length ks) 4) ks \<and> length (EntryBuffer s') \<le> 4 \<and>
                mode s' = mode s \<and> StoredPin s' = StoredPin s) \<and>
      (\<exists>s' tr'. run_7seg (s, tr7) ks = Some (s', tr') \<and>
                EntryBuffer s' = take (min (length ks) 4) ks \<and> length (EntryBuffer s') \<le> 4 \<and>
                mode s' = mode s \<and> StoredPin s' = StoredPin s))
   \<and> (well_formed t \<and> (mode t = SettingPin \<or> mode t = EnteringPin) \<and> length (EntryBuffer t) = 4
      \<and> is_digit key \<longrightarrow>
      handle_oled t key = Some (t, []) \<and> handle_7seg t key = Some (t, []))"
proof (intro conjI impI)
  assume a: "well_formed s \<and> (mode s = SettingPin \<or> mode s = EnteringPin) \<and> EntryBuffer s = []
      \<and> list_all is_digit ks"
  then have w: "well_formed s" and m: "mode s = 1 \<or> mode s = 3" and e: "EntryBuffer s = []"
    and d: "list_all is_digit ks" by simp_all
  from run_oled_digits [OF w m d, of tr] e
  show "\<exists>s' tr'. run_oled (s, tr) ks = Some (s', tr') \<and>
                EntryBuffer s' = take (min (length ks) 4) ks \<and> length (EntryBuffer s') \<le> 4 \<and>
                mode s' = mode s \<and> StoredPin s' = StoredPin s"
    by (auto simp: StoredPin_def take_min_length)
  from run_7seg_digits [OF w m d, of tr7] e
  show "\<exists>s' tr'. run_7seg (s, tr7) ks = Some (s', tr') \<and>
                EntryBuffer s' = take (min (length ks) 4) ks \<and> length (EntryBuffer s') \<le> 4 \<and>
                mode s' = mode s \<and> StoredPin s' = StoredPin s"
    by (auto simp: StoredPin_def take_min_length)
next
  assume a: "well_formed t \<and> (mode t = SettingPin \<or> mode t = EnteringPin) \<and> length (EntryBuffer t) = 4
      \<and> is_digit key"
  then have i: "4 \<le> index t" using wf_entered(2) [of t] by simp
  from a show "handle_oled t key = Some (t, [])"
    using handle_oled_digit_full [OF _ _ i, of key] by blast
  from a show "handle_7seg t key = Some (t, [])"
    using handle_7seg_digit_full [OF _ _ i, of key] by blast
qed


theorem C3_digit_entry_witness:
  "(let s = \<lparr>storedPassword = ''0000'' @ [NUL], enteredPassword = replicate 5 NUL,
              index = 0, mode = SettingPin\<rparr>;
        t = \<lparr>storedPassword = ''0000'' @ [NUL], enteredPassword = ''1234'' @ [NUL],
              index = 4, mode = EnteringPin\<rparr>
    in (well_formed s \<and> (mode s = SettingPin \<or> mode s = EnteringPin) \<and> EntryBuffer s = []
          \<and> list_all is_digit ''123456'')
       \<and> (\<exists>s' tr'. run_oled (s, []) ''123456'' = Some (s', tr') \<and> EntryBuffer s' = ''1234'' \<and>
              length (EntryBuffer s') \<le> 4 \<and> mode s' = SettingPin \<and> StoredPin s' = ''0000'')
       \<and> (\<exists>s' tr'. run_7seg (s, []) ''123456'' = Some (s', tr') \<and> EntryBuffer s' = ''1234'' \<and>
              length (EntryBuffer s') \<le> 4 \<and> mode s' = SettingPin \<and> StoredPin s' = ''0000'')
       \<and> (well_formed t \<and> (mode t = SettingPin \<or> mode t = EnteringPin)
          \<and> length (EntryBuffer t) = 4 \<and> is_digit CHR ''7'')
       \<and> handle_oled t CHR ''7'' = Some (t, []) \<and> handle_7seg t CHR ''7'' = Some (t, []))"
proof -
  let ?s = "\<lparr>storedPassword = ''0000'' @ [NUL], enteredPassword = replicate 5 NUL,
              index = 0, mode = SettingPin\<rparr>"
  let ?t = "\<lparr>storedPassword = ''0000'' @ [NUL], enteredPassword = ''1234'' @ [NUL],
              index = 4, mode = EnteringPin\<rparr>"
  have hs: "well_formed ?s \<and> (mode ?s = SettingPin \<or> mode ?s = EnteringPin) \<and> EntryBuffer ?s = []
          \<and> list_all is_digit ''123456''"
    by (simp add: well_formed_def MAX_PASSWORD_LENGTH_def is_digit_def EntryBuffer_def)
  have ht: "well_formed ?t \<and> (mode ?t = SettingPin \<or> mode ?t = EnteringPin)
          \<and> length (EntryBuffer ?t) = 4 \<and> is_digit CHR ''7''"
    by (simp add: well_formed_def MAX_PASSWORD_LENGTH_def is_digit_def EntryBuffer_def)
  have sp: "StoredPin ?s = ''0000''"
    by (simp add: StoredPin_def MAX_PASSWORD_LENGTH_def)
  from C3_digit_entry [of ?s "''123456''" "[]" "[]" ?t "CHR ''7''"] hs ht sp
  show ?thesis
    unfolding Let_def by (simp del: run_oled.simps run_7seg.simps)
qed

text \<open>
  Claim C4. In a well-formed state, a key for which the transition table of the spec has
  no row (for the current mode and buffer length) leaves all four globals as they are,
  so Mode, StoredPin and EntryBuffer are unchanged, and no output call is made. This
  covers \<open>*\<close> and \<open>#\<close> in every mode, and \<open>B\<close> and \<open>D\<close> whenever fewer than four
  digits have been entered.
\<close>

theorem C4_unmatched_key_dropped:
  assumes "well_formed s"
  shows "(\<not> spec_table_row (mode s) key (length (EntryBuffer s)) \<longrightarrow>
            handle_oled s key = Some (s, []) \<and> handle_7seg s key = Some (s, []))
       \<and> (key = CHR ''*'' \<or> key = CHR ''#'' \<longrightarrow>
            handle_oled s key = Some (s, []) \<and> handle_7seg s key = Some (s, []))
       \<and> ((key = CHR ''B'' \<or> key = CHR ''D'') \<and> length (EntryBuffer s) < 4 \<longrightarrow>
            handle_oled s key = Some (s, []) \<and> handle_7seg s key = Some (s, []))"
proof -
  have l: "length (EntryBuffer s) = index s" by (rule wf_entered(2) [OF assms])
  show ?thesis
    unfolding l
    using handle_oled_unmatched [of s key] handle_7seg_unmatched [of s key]
      star_hash_no_row [of key "mode s" "index s"] confirm_short_no_row [of key "index s" "mode s"]
    by blast
qed

theorem C4_unmatched_key_dropped_witness:
  "(let s = \<lparr>storedPassword = ''0000'' @ [NUL], enteredPassword = ''12'' @ [NUL, NUL, NUL],
              index = 2, mode = SettingPin\<rparr>
    in well_formed s
       \<and> \<not> spec_table_row (mode s) CHR ''C'' (length (EntryBuffer s))
       \<and> handle_oled s CHR ''C'' = Some (s, []) \<and> handle_7seg s CHR ''C'' = Some (s, [])
       \<and> handle_oled s CHR ''*'' = Some (s, []) \<and> handle_7seg s CHR ''*'' = Some (s, [])
       \<and> length (EntryBuffer s) < 4
       \<and> handle_oled s CHR ''B'' = Some (s, []) \<and> handle_7seg s CHR ''B'' = Some (s, []))"
proof -
  let ?s = "\<lparr>storedPassword = ''0000'' @ [NUL], enteredPassword = ''12'' @ [NUL, NUL, NUL],
              index = 2, mode = SettingPin\<rparr>"
  have w: "well_formed ?s"
    by (simp add: well_formed_def MAX_PASSWORD_LENGTH_def is_digit_def)
  have l: "length (EntryBuffer ?s) = 2"
    by (simp add: EntryBuffer_def)
  have r: "\<not> spec_table_row (mode ?s) CHR ''C'' (length (EntryBuffer ?s))"
    by (simp add: spec_table_row_def)
  from C4_unmatched_key_dropped [OF w, of "CHR ''C''"] C4_unmatched_key_dropped [OF w, of "CHR ''*''"]
    C4_unmatched_key_dropped [OF w, of "CHR ''B''"] w l r
  show ?thesis
    unfolding Let_def by simp
qed

text \<open>
  Claim C5. In every state reachable from start-up (mode Unlocked, StoredPin \<open>0000\<close>),
  whatever keys arrive, \<^verbatim>\<open>storedPassword\<close> holds exactly four decimal digit characters
  and the terminator. A loop iteration changes it only when the mode is SettingPin, the
  key is \<open>B\<close> and four digits have been entered; it then holds those four digits.
\<close>

theorem C5_stored_pin_invariant:
  "(reachable_oled s \<longrightarrow>
      length (StoredPin s) = 4 \<and> set (StoredPin s) \<subseteq> set ''0123456789'' \<and>
      storedPassword s = StoredPin s @ [NUL] \<and>
      (\<forall>key s' out. handle_oled s key = Some (s', out) \<and> storedPassword s' \<noteq> storedPassword s \<longrightarrow>
         mode s = SettingPin \<and> key = CHR ''B'' \<and> length (EntryBuffer s) = 4 \<and>
         StoredPin s' = EntryBuffer s \<and> mode s' = Locked))
   \<and> (reachable_7seg s \<longrightarrow>
      length (StoredPin s) = 4 \<and> set (StoredPin s) \<subseteq> set ''0123456789'' \<and>
      storedPassword s = StoredPin s @ [NUL] \<and>
      (\<forall>key s' out. handle_7seg s key = Some (s', out) \<and> storedPassword s' \<noteq> storedPassword s \<longrightarrow>
         mode s = SettingPin \<and> key = CHR ''B'' \<and> length (EntryBuffer s) = 4 \<and>
         StoredPin s' = EntryBuffer s \<and> mode s' = Locked))"
proof -
  have conseq: "mode s = SettingPin \<and> key = CHR ''B'' \<and> length (EntryBuffer s) = 4 \<and>
         StoredPin s' = EntryBuffer s \<and> mode s' = Locked"
    if w: "well_formed s"
      and c: "mode s = 1 \<and> key = CHR ''B'' \<and> index s = 4 \<and>
              s' = s\<lparr>storedPassword := enteredPassword s, mode := 2\<rparr>"
    for key s'
    using c wf_entered(2) [OF w] wf_after_B(2) [OF w, of 2] by simp
  have "reachable_oled s \<longrightarrow> (\<forall>key s' out. handle_oled s key = Some (s', out) \<and> storedPassword s' \<noteq> storedPassword s \<longrightarrow>
         mode s = SettingPin \<and> key = CHR ''B'' \<and> length (EntryBuffer s) = 4 \<and>
         StoredPin s' = EntryBuffer s \<and> mode s' = Locked)"
    using handle_oled_stored_changes [OF reachable_oled_wf] conseq [OF reachable_oled_wf] by blast
  moreover have "reachable_7seg s \<longrightarrow> (\<forall>key s' out. handle_7seg s key = Some (s', out) \<and> storedPassword s' \<noteq> storedPassword s \<longrightarrow>
         mode s = SettingPin \<and> key = CHR ''B'' \<and> length (EntryBuffer s) = 4 \<and>
         StoredPin s' = EntryBuffer s \<and> mode s' = Locked)"
    using handle_7seg_stored_changes [OF reachable_7seg_wf] conseq [OF reachable_7seg_wf] by blast
  ultimately show ?thesis
    using StoredPin_digits [OF reachable_oled_wf] StoredPin_digits [OF reachable_7seg_wf]
    by blast
qed

theorem C5_stored_pin_invariant_witness:
  "(let s = \<lparr>storedPassword = ''0000'' @ [NUL], enteredPassword = ''1234'' @ [NUL],
              index = 4, mode = SettingPin\<rparr>;
        s' = \<lparr>storedPassword = ''1234'' @ [NUL], enteredPassword = ''1234'' @ [NUL],
              index = 4, mode = Locked\<rparr>
    in reachable_oled s \<and> reachable_7seg s
       \<and> StoredPin s = ''0000''
       \<and> handle_oled s CHR ''B'' =
             Some (s', [DisplayMessage ''Locked. Press C to enter PIN'', SetLockedLEDOn,
                        SetUnlockedLEDOff])
       \<and> handle_7seg s CHR ''B'' = Some (s', [UpdateDisplay ''1234''])
       \<and> storedPassword s' \<noteq> storedPassword s
       \<and> StoredPin s' = EntryBuffer s)"
proof -
  let ?s = "\<lparr>storedPassword = ''0000'' @ [NUL], enteredPassword = ''1234'' @ [NUL],
              index = 4, mode = SettingPin\<rparr>"
  let ?s' = "\<lparr>storedPassword = ''1234'' @ [NUL], enteredPassword = ''1234'' @ [NUL],
              index = 4, mode = Locked\<rparr>"
  let ?o = "[DisplayMessage ''Locked. Press C to enter PIN'', SetLockedLEDOn, SetUnlockedLEDOff]"
  have ho: "handle_oled ?s CHR ''B'' = Some (?s', ?o)"
    by (simp add: eval_defs eval_nat_numeral)
  have h7: "handle_7seg ?s CHR ''B'' = Some (?s', [UpdateDisplay ''1234''])"
    by (simp add: eval_defs eval_nat_numeral)
  have ne: "storedPassword ?s' \<noteq> storedPassword ?s"
    by simp
  from C5_stored_pin_invariant [of ?s] reachable_oled_example reachable_7seg_example
  have "StoredPin ?s' = EntryBuffer ?s \<and> length (StoredPin ?s) = 4"
    using ho ne by blast
  moreover have "StoredPin ?s = ''0000''"
    by (simp add: StoredPin_def MAX_PASSWORD_LENGTH_def)
  ultimately show ?thesis
    unfolding Let_def using reachable_oled_example reachable_7seg_example ho h7 ne by simp
qed

text \<open>
  Claim C6. A poll returns NUL (no key) whenever the key decoded from the sampled value
  equals \<^verbatim>\<open>lastKey\<close>, and after every poll \<^verbatim>\<open>lastKey\<close> is the key that poll decoded.
  So over every list of sampled values, a poll that returns a key is never followed
  directly by a poll that returns the same key; and while the sampled value stays the
  same, the first poll returns what it returns and all later polls return NUL: a held
  key is reported once.
\<close>

theorem C6_repeat_suppression:
  "(keymap (bcd_oled p) = lastKey \<longrightarrow> fst (getKeypadInput_oled lastKey p) = NUL)
   \<and> (keymap (bcd_7seg p) = lastKey \<longrightarrow> fst (getKeypadInput_7seg lastKey p) = NUL)
   \<and> fst (snd (getKeypadInput_oled lastKey p)) = keymap (bcd_oled p)
   \<and> fst (snd (getKeypadInput_7seg lastKey p)) = keymap (bcd_7seg p)
   \<and> (Suc i < length ps \<and> polls_oled lastKey ps ! i \<noteq> NUL \<longrightarrow>
        polls_oled lastKey ps ! Suc i \<noteq> polls_oled lastKey ps ! i)
   \<and> (Suc i < length ps \<and> polls_7seg lastKey ps ! i \<noteq> NUL \<longrightarrow>
        polls_7seg lastKey ps ! Suc i \<noteq> polls_7seg lastKey ps ! i)
   \<and> polls_oled lastKey (replicate (Suc n) p) = fst (getKeypadInput_oled lastKey p) # replicate n NUL
   \<and> polls_7seg lastKey (replicate (Suc n) p) = fst (getKeypadInput_7seg lastKey p) # replicate n NUL"
  using polls_oled_adjacent [of i ps lastKey] polls_7seg_adjacent [of i ps lastKey]
    polls_oled_held [of lastKey n p] polls_7seg_held [of lastKey n p]
  by (simp add: getKeypadInput_oled_def getKeypadInput_7seg_def Let_def
      del: polls_oled.simps polls_7seg.simps replicate.simps)

theorem C6_repeat_suppression_witness:
  "keymap (bcd_oled 0x40) = CHR ''7'' \<and> fst (getKeypadInput_oled CHR ''7'' 0x40) = NUL
   \<and> keymap (bcd_7seg 0x20) = CHR ''7'' \<and> fst (getKeypadInput_7seg CHR ''7'' 0x20) = NUL
   \<and> polls_oled NUL [0x40, 0x40, 0x40, 0x00] = [CHR ''7'', NUL, NUL, CHR ''1'']
   \<and> polls_oled NUL [0x40, 0x40, 0x40, 0x00] ! 0 \<noteq> NUL
   \<and> polls_oled NUL [0x40, 0x40, 0x40, 0x00] ! Suc 0 \<noteq> polls_oled NUL [0x40, 0x40, 0x40, 0x00] ! 0
   \<and> polls_7seg NUL [0x20, 0x20, 0x20, 0x00] = [CHR ''7'', NUL, NUL, CHR ''1'']
   \<and> polls_7seg NUL [0x20, 0x20, 0x20, 0x00] ! 0 \<noteq> NUL
   \<and> polls_7seg NUL [0x20, 0x20, 0x20, 0x00] ! Suc 0 \<noteq> polls_7seg NUL [0x20, 0x20, 0x20, 0x00] ! 0"
  using C6_repeat_suppression [where p = "0x40" and lastKey = "CHR ''7''"]
    C6_repeat_suppression [where p = "0x20" and lastKey = "CHR ''7''"]
    C6_repeat_suppression [where lastKey = NUL and ps = "[0x40, 0x40, 0x40, 0x00]" and i = 0]
    C6_repeat_suppression [where lastKey = NUL and ps = "[0x20, 0x20, 0x20, 0x00]" and i = 0]
  by (simp add: scan_defs)

text \<open>
  Claim C7, as stated, fails on the OLED variant: its table maps all sixteen 4-bit codes,
  so there is no value of the input lines that decodes to no key. With nothing retained
  (\<^verbatim>\<open>lastKey\<close> is 0 after power-up) the poll returns a key for every sampled value;
  with all four lines at the pulled-up level \<^verbatim>\<open>setupGPIO\<close> configures (\<open>0x78\<close>) it
  returns \<open>D\<close>, with all four low it returns \<open>1\<close>.
\<close>

theorem C7_counterexample:
  "fst (getKeypadInput_oled NUL 0x78) = CHR ''D'' \<and> fst (getKeypadInput_oled NUL 0x78) \<noteq> NUL
   \<and> fst (getKeypadInput_oled NUL 0x00) = CHR ''1'' \<and> fst (getKeypadInput_oled NUL 0x00) \<noteq> NUL"
  by (simp add: scan_defs)

text \<open>
  Claim C7, amended. A poll returns NUL exactly when the decoded key equals
  \<^verbatim>\<open>lastKey\<close> or the sampled code is not in the table. Codes outside the table occur
  only in the 7-segment variant (the codes above 15, which include all four lines high).
  In the OLED variant every sampled value decodes to one of the sixteen keys, so a poll
  returns NUL only for a repeat of \<^verbatim>\<open>lastKey\<close>, and the first poll after power-up always
  returns a key.
\<close>

theorem C7_poll_none:
  "(fst (getKeypadInput_oled lastKey p) = NUL \<longleftrightarrow> keymap (bcd_oled p) = lastKey)
   \<and> (fst (getKeypadInput_7seg lastKey p) = NUL \<longleftrightarrow>
        keymap (bcd_7seg p) = lastKey \<or> keymap (bcd_7seg p) = NUL)
   \<and> (keymap (bcd_7seg p) = NUL \<longleftrightarrow> 15 < unat (bcd_7seg p))
   \<and> keymap (bcd_oled p) \<in> set ''123A456B789C*0#D''
   \<and> fst (getKeypadInput_oled NUL p) \<noteq> NUL"
  using keymap_oled_not_NUL [of p] keymap_oled_mapped [of p] bcd_7seg_unmapped [of p]
  by (auto simp: getKeypadInput_oled_def getKeypadInput_7seg_def Let_def)

theorem C7_poll_none_witness:
  "fst (getKeypadInput_7seg CHR ''1'' 0x78) = NUL \<and> keymap (bcd_7seg 0x78) = NUL
   \<and> 15 < unat (bcd_7seg 0x78)
   \<and> fst (getKeypadInput_oled CHR ''D'' 0x78) = NUL \<and> keymap (bcd_oled 0x78) = CHR ''D''
   \<and> fst (getKeypadInput_oled NUL 0x78) = CHR ''D''"
  using C7_poll_none [of "CHR ''1''" "0x78"] C7_poll_none [of "CHR ''D''" "0x78"]
  by (simp add: scan_defs)

text \<open>
  Claim C8. When \<open>D\<close> is pressed in mode EnteringPin with four digits that differ from
  StoredPin, the one loop iteration makes exactly these output calls, in this order, and
  reads no input in between (the loop body polls only before it). On the 7-segment
  variant: \<^verbatim>\<open>displayError()\<close>, which latches \<open>8888\<close> and then waits 200000 cycles,
  directly followed by the render of the Locked mode, \<^verbatim>\<open>updateDisplay(storedPassword)\<close>.
  On the OLED variant: the message \<open>Wrong PIN! Press C to try again\<close> and
  \<^verbatim>\<open>flashLockedLED()\<close>, ten times two toggles with 3000000 cycles after each, directly followed by
  the locked indication on the LEDs (locked LED on, unlocked LED off); the text stays on
  the OLED until the next key \<open>C\<close>.
\<close>

theorem C8_failure_then_locked:
  assumes "well_formed s" and "mode s = EnteringPin" and "length (EntryBuffer s) = 4"
    and "EntryBuffer s \<noteq> StoredPin s"
  shows "handle_7seg s CHR ''D'' =
           Some (s\<lparr>mode := Locked\<rparr>, [DisplayError, UpdateDisplay (StoredPin s)])
       \<and> concat (map hw_7seg [DisplayError, UpdateDisplay (StoredPin s)]) =
           updateDisplay ''8888'' @ [delay_cycles 200000] @ updateDisplay (StoredPin s)
       \<and> handle_oled s CHR ''D'' =
           Some (s\<lparr>mode := Locked\<rparr>,
                 [DisplayMessage ''Wrong PIN! Press C to try again'', FlashLockedLED,
                  SetLockedLEDOn, SetUnlockedLEDOff])
       \<and> concat (map hw_oled [DisplayMessage ''Wrong PIN! Press C to try again'', FlashLockedLED,
                               SetLockedLEDOn, SetUnlockedLEDOff]) =
           [ssd1306_clearDisplay,
            ssd1306_printTextBlock 0 2 ''Wrong PIN! Press C to try again '',
            delay_cycles 100000]
           @ concat (replicate 10 [P1OUT_toggle BIT4, delay_cycles 3000000,
                                   P1OUT_toggle BIT4, delay_cycles 3000000])
           @ [P1OUT_set BIT4, P1OUT_clear BIT5]"
proof -
  from assms(1,3) have i: "index s = 4" by (simp add: wf_entered(2))
  have a: "handle_7seg s CHR ''D'' =
           Some (s\<lparr>mode := Locked\<rparr>, [DisplayError, UpdateDisplay (StoredPin s)])"
    using handle_7seg_D [OF assms(1,2) i] assms(4) by simp
  have b: "concat (map hw_7seg [DisplayError, UpdateDisplay (StoredPin s)]) =
           updateDisplay ''8888'' @ [delay_cycles 200000] @ updateDisplay (StoredPin s)"
    by (simp add: displayError_def)
  have c: "handle_oled s CHR ''D'' =
           Some (s\<lparr>mode := Locked\<rparr>,
                 [DisplayMessage ''Wrong PIN! Press C to try again'', FlashLockedLED,
                  SetLockedLEDOn, SetUnlockedLEDOff])"
    using handle_oled_D [OF assms(1,2) i] assms(4) by simp
  have d: "concat (map hw_oled [DisplayMessage ''Wrong PIN! Press C to try again'', FlashLockedLED,
                               SetLockedLEDOn, SetUnlockedLEDOff]) =
           [ssd1306_clearDisplay,
            ssd1306_printTextBlock 0 2 ''Wrong PIN! Press C to try again '',
            delay_cycles 100000]
           @ concat (replicate 10 [P1OUT_toggle BIT4, delay_cycles 3000000,
                                   P1OUT_toggle BIT4, delay_cycles 3000000])
           @ [P1OUT_set BIT4, P1OUT_clear BIT5]"
    unfolding flashLockedLED_eq [symmetric]
    by (simp add: displayMessage_def setLockedLEDOn_def setUnlockedLEDOff_def
        del: replicate.simps)
  from a b c d show ?thesis by blast
qed

theorem C8_failure_then_locked_witness:
  "(let s = \<lparr>storedPassword = ''1234'' @ [NUL], enteredPassword = ''9999'' @ [NUL],
              index = 4, mode = EnteringPin\<rparr>
    in well_formed s \<and> mode s = EnteringPin \<and> length (EntryBuffer s) = 4
       \<and> EntryBuffer s \<noteq> StoredPin s
       \<and> handle_7seg s CHR ''D'' = Some (s\<lparr>mode := Locked\<rparr>, [DisplayError, UpdateDisplay ''1234''])
       \<and> handle_oled s CHR ''D'' =
           Some (s\<lparr>mode := Locked\<rparr>,
                 [DisplayMessage ''Wrong PIN! Press C to try again'', FlashLockedLED,
                  SetLockedLEDOn, SetUnlockedLEDOff]))"
proof -
  let ?s = "\<lparr>storedPassword = ''1234'' @ [NUL], enteredPassword = ''9999'' @ [NUL],
              index = 4, mode = EnteringPin\<rparr>"
  have w: "well_formed ?s"
    by (simp add: well_formed_def MAX_PASSWORD_LENGTH_def is_digit_def)
  have m: "mode ?s = EnteringPin" by simp
  have l: "length (EntryBuffer ?s) = 4" by (simp add: EntryBuffer_def)
  have p: "StoredPin ?s = ''1234''" by (simp add: StoredPin_def MAX_PASSWORD_LENGTH_def)
  have n: "EntryBuffer ?s \<noteq> StoredPin ?s"
    by (simp add: EntryBuffer_def StoredPin_def MAX_PASSWORD_LENGTH_def)
  note c = C8_failure_then_locked [OF w m l n]
  from c have 1: "handle_7seg ?s CHR ''D'' = Some (?s\<lparr>mode := Locked\<rparr>, [DisplayError, UpdateDisplay ''1234''])"
    unfolding p by blast
  from c have 2: "handle_oled ?s CHR ''D'' =
           Some (?s\<lparr>mode := Locked\<rparr>,
                 [DisplayMessage ''Wrong PIN! Press C to try again'', FlashLockedLED,
                  SetLockedLEDOn, SetUnlockedLEDOff])"
    by blast
  show ?thesis
    unfolding Let_def using w m l n 1 2 by (intro conjI) blast+
qed

text \<open>
  Claim C9. In the 7-segment variant the sampled value is masked with \<open>0x78\<close> (bits 3
  to 6) and shifted right by 2, so the code is even and at most 30. No poll, and no
  sequence of polls, returns any of the keys \<open>0 2 5 8 A B C D\<close> (the keys of the odd
  codes), and a code above 15 decodes to NUL, so the poll returns NUL.
\<close>

theorem C9_7seg_shift_by_two:
  "bcd_7seg p = drop_bit 2 (p AND 0x78)
   \<and> even (unat (bcd_7seg p)) \<and> unat (bcd_7seg p) \<le> 30
   \<and> fst (getKeypadInput_7seg lastKey p) \<notin> set ''0258ABCD''
   \<and> set (polls_7seg lastKey ps) \<inter> set ''0258ABCD'' = {}
   \<and> (15 < unat (bcd_7seg p) \<longrightarrow>
        keymap (bcd_7seg p) = NUL \<and> fst (getKeypadInput_7seg lastKey p) = NUL)"
proof -
  have a: "bcd_7seg p = drop_bit 2 (p AND 0x78)"
    by (simp add: bcd_7seg_def BIT3_def BIT4_def BIT5_def BIT6_def)
  have b: "fst (getKeypadInput_7seg lastKey p) \<notin> set ''0258ABCD''"
    using getKeypadInput_7seg_values [of lastKey p] by auto
  have c: "set (polls_7seg lastKey ps) \<inter> set ''0258ABCD'' = {}"
    using polls_7seg_values [of lastKey ps] by auto
  have d: "15 < unat (bcd_7seg p) \<longrightarrow>
        keymap (bcd_7seg p) = NUL \<and> fst (getKeypadInput_7seg lastKey p) = NUL"
    by (simp add: bcd_7seg_unmapped getKeypadInput_7seg_def Let_def)
  from a b c d unat_bcd_7seg [of p] show ?thesis by blast
qed

theorem C9_7seg_shift_by_two_witness:
  "15 < unat (bcd_7seg 0x78) \<and> bcd_7seg 0x78 = 30 \<and> keymap (bcd_7seg 0x78) = NUL
   \<and> fst (getKeypadInput_7seg CHR ''1'' 0x78) = NUL"
  using C9_7seg_shift_by_two [of "0x78" "CHR ''1''" "[]"]
  by (simp add: scan_defs)

text \<open>
  Claim C10. In the 7-segment variant every loop iteration that changes the mode to
  Locked or to Unlocked ends with \<^verbatim>\<open>updateDisplay(storedPassword)\<close>, which writes the
  four digit values of the current StoredPin to P6OUT; start-up renders it too. Hence,
  after any keys fed from start-up, whenever the mode is Locked (or Unlocked) the last
  output call made is the render of the current StoredPin: the PIN is on the display
  while the system is locked.
\<close>

theorem C10_7seg_shows_stored_pin:
  "(well_formed s \<and> handle_7seg s key = Some (s', out) \<and> mode s' \<noteq> mode s
      \<and> (mode s' = Locked \<or> mode s' = Unlocked) \<longrightarrow>
      out \<noteq> [] \<and> last out = UpdateDisplay (StoredPin s')
      \<and> P6OUT_writes (hw_7seg (last out)) = map digitVal (StoredPin s'))
   \<and> startup_7seg = Some (initial_state, [UpdateDisplay (StoredPin initial_state)])
   \<and> (startup_7seg = Some st \<and> run_7seg st keys = Some (t, tr)
      \<and> (mode t = Locked \<or> mode t = Unlocked) \<longrightarrow>
      tr \<noteq> [] \<and> last tr = UpdateDisplay (StoredPin t)
      \<and> P6OUT_writes (hw_7seg (last tr)) = map digitVal (StoredPin t))"
proof (intro conjI impI)
  assume a: "well_formed s \<and> handle_7seg s key = Some (s', out) \<and> mode s' \<noteq> mode s
      \<and> (mode s' = Locked \<or> mode s' = Unlocked)"
  then have e: "out \<noteq> [] \<and> last out = UpdateDisplay (StoredPin s')"
    using handle_7seg_enters [of s key s' out] by blast
  from a have "well_formed s'" using handle_7seg_wf by blast
  then have "length (StoredPin s') = 4" by (rule wf_stored(2))
  with e show "out \<noteq> []" "last out = UpdateDisplay (StoredPin s')"
    "P6OUT_writes (hw_7seg (last out)) = map digitVal (StoredPin s')"
    by (simp_all add: P6OUT_writes_updateDisplay)
next
  show "startup_7seg = Some (initial_state, [UpdateDisplay (StoredPin initial_state)])"
    by (simp add: startup_7seg_eq) (simp add: StoredPin_def initial_state_def MAX_PASSWORD_LENGTH_def)
next
  assume a: "startup_7seg = Some st \<and> run_7seg st keys = Some (t, tr)
      \<and> (mode t = Locked \<or> mode t = Unlocked)"
  then have r: "run_7seg (initial_state, [UpdateDisplay ''0000'']) keys = Some (t, tr)"
    by (simp add: startup_7seg_eq)
  have i: "StoredPin initial_state = ''0000''"
    by (simp add: StoredPin_def initial_state_def MAX_PASSWORD_LENGTH_def)
  from run_7seg_shows_pin [OF initial_wf r] i a
  have e: "tr \<noteq> [] \<and> last tr = UpdateDisplay (StoredPin t)" by simp
  have "reachable_7seg t"
    using run_7seg_reachable [OF start_7seg [OF startup_7seg_eq] r] .
  then have "length (StoredPin t) = 4" by (intro wf_stored(2) reachable_7seg_wf)
  with e show "tr \<noteq> []" "last tr = UpdateDisplay (StoredPin t)"
    "P6OUT_writes (hw_7seg (last tr)) = map digitVal (StoredPin t)"
    by (simp_all add: P6OUT_writes_updateDisplay)
qed

theorem C10_7seg_shows_stored_pin_witness:
  "(let s = \<lparr>storedPassword = ''0000'' @ [NUL], enteredPassword = ''1234'' @ [NUL],
              index = 4, mode = SettingPin\<rparr>;
        s' = \<lparr>storedPassword = ''1234'' @ [NUL], enteredPassword = ''1234'' @ [NUL],
              index = 4, mode = Locked\<rparr>
    in well_formed s \<and> handle_7seg s CHR ''B'' = Some (s', [UpdateDisplay ''1234''])
       \<and> mode s' \<noteq> mode s \<and> mode s' = Locked
       \<and> StoredPin s' = ''1234''
       \<and> P6OUT_writes (hw_7seg (UpdateDisplay ''1234'')) = [1, 2, 3, 4]
       \<and> (\<exists>tr. run_7seg (initial_state, [UpdateDisplay ''0000'']) ''A1234B'' = Some (s', tr)
              \<and> last tr = UpdateDisplay ''1234''))"
proof -
  let ?s = "\<lparr>storedPassword = ''0000'' @ [NUL], enteredPassword = ''1234'' @ [NUL],
              index = 4, mode = SettingPin\<rparr>"
  let ?s' = "\<lparr>storedPassword = ''1234'' @ [NUL], enteredPassword = ''1234'' @ [NUL],
              index = 4, mode = Locked\<rparr>"
  let ?tr = "[UpdateDisplay ''0000'', ClearDisplay, UpdateDisplay ''1'', UpdateDisplay ''12'',
            UpdateDisplay ''123'', UpdateDisplay ''1234'', UpdateDisplay ''1234'']"
  have w: "well_formed ?s"
    by (simp add: well_formed_def MAX_PASSWORD_LENGTH_def is_digit_def)
  have h: "handle_7seg ?s CHR ''B'' = Some (?s', [UpdateDisplay ''1234''])"
    by (simp add: eval_defs eval_nat_numeral)
  have p: "StoredPin ?s' = ''1234''"
    by (simp add: StoredPin_def MAX_PASSWORD_LENGTH_def)
  have dv: "map digitVal ''1234'' = [1, 2, 3, 4]"
    by (simp add: digitVal_def)
  note c = C10_7seg_shows_stored_pin
    [of ?s "CHR ''B''" ?s' "[UpdateDisplay ''1234'']" "(initial_state, [UpdateDisplay ''0000''])"
      "''A1234B''" ?s' ?tr]
  have h1: "well_formed ?s \<and> handle_7seg ?s CHR ''B'' = Some (?s', [UpdateDisplay ''1234''])
      \<and> mode ?s' \<noteq> mode ?s \<and> (mode ?s' = Locked \<or> mode ?s' = Unlocked)"
    using w h by simp
  have h3: "startup_7seg = Some (initial_state, [UpdateDisplay ''0000''])
      \<and> run_7seg (initial_state, [UpdateDisplay ''0000'']) ''A1234B'' = Some (?s', ?tr)
      \<and> (mode ?s' = Locked \<or> mode ?s' = Unlocked)"
    using startup_7seg_eq run_7seg_example_locked by (simp del: run_7seg.simps)
  from c [THEN conjunct1, THEN mp, OF h1]
  have 1: "P6OUT_writes (hw_7seg (UpdateDisplay ''1234'')) = [1, 2, 3, 4]"
    unfolding p dv by simp
  from c [THEN conjunct2, THEN conjunct2, THEN mp, OF h3]
  have 2: "last ?tr = UpdateDisplay ''1234''"
    unfolding p by simp
  have 3: "\<exists>tr. run_7seg (initial_state, [UpdateDisplay ''0000'']) ''A1234B'' = Some (?s', tr)
              \<and> last tr = UpdateDisplay ''1234''"
    using run_7seg_example_locked 2 by blast
  have 4: "mode ?s' \<noteq> mode ?s \<and> mode ?s' = Locked" by simp
  show ?thesis
    unfolding Let_def using w h 4 p 1 3 by (intro conjI) blast+
qed

end
